theory Spec2Isabelle
  imports Complex_Main "HOL-Library.Word"
begin

unbundle bit_operations_syntax

section \<open>syncrypto/crypto.py: the container format engine\<close>

text \<open>
  A shallow embedding of class \<open>Crypto\<close> of \<open>syncrypto/crypto.py\<close>: key derivation
  (\<open>gen_key_and_iv\<close>), the footer codec (\<open>_build_footer\<close>, \<open>_unpack_footer\<close>) and the two
  streaming procedures \<open>encrypt_fd\<close> and \<open>decrypt_fd\<close>.

  Byte strings are lists of 8-bit words. A readable stream is the list of bytes it still
  holds: \<open>read(n)\<close> hands out the first \<open>n\<close> of them (fewer at the end of the stream). A
  writable stream is the list of the byte strings written to it, in order. Every
  \<open>raise\<close> of the source and every exception of the library calls it makes is a value
  of type \<open>error\<close>.

  The library primitives the source calls (\<open>hashlib.md5\<close>, the AES block cipher of
  \<open>cryptography\<close>, \<open>zlib\<close>, \<open>os.urandom\<close>, \<open>time.time\<close>) are not code of this
  repository; they are the fields of a record \<open>env\<close> that every operation takes. What the
  source builds on top of them (the CBC chaining and block buffering of a cipher context,
  the streaming digest) is modelled explicitly.
\<close>

subsection \<open>Bytes, streams and errors\<close>

type_synonym byte = "8 word"
type_synonym bytes = "byte list"

datatype error =
    InvalidKey
  | DigestMissMatch
  | UnrecognizedContent
  | VersionNotCompatible
  | StructError
  | ValueError
  | IndexError
  | TypeError
  | ZlibError

text \<open>\<open>fd.read(n)\<close> on a stream holding \<open>s\<close>: the bytes read and the stream afterwards.\<close>

definition fd_read :: "bytes \<Rightarrow> nat \<Rightarrow> bytes \<times> bytes" where
  "fd_read s n = (take n s, drop n s)"

text \<open>\<open>fd.write(b)\<close>.\<close>

definition fd_write :: "bytes list \<Rightarrow> bytes \<Rightarrow> bytes list" where
  "fd_write out b = out @ [b]"

subsection \<open>\<open>struct.pack\<close> and \<open>struct.unpack\<close> in network byte order\<close>

fun be_bytes :: "nat \<Rightarrow> nat \<Rightarrow> bytes" where
  "be_bytes 0 v = []"
| "be_bytes (Suc n) v = be_bytes n (v div 256) @ [of_nat (v mod 256)]"

definition be_nat :: "bytes \<Rightarrow> nat" where
  "be_nat b = foldl (\<lambda>a x. a * 256 + unat x) 0 b"

text \<open>
  \<open>pack('!H', v)\<close>, \<open>pack('!I', v)\<close>, \<open>pack('!Q', v)\<close> are \<open>pack_unsigned\<close> at widths 2, 4
  and 8; \<open>pack('B', v)\<close> is width 1. A value outside the format's range raises
  \<open>struct.error\<close>.
\<close>

definition pack_unsigned :: "nat \<Rightarrow> int \<Rightarrow> error + bytes" where
  "pack_unsigned w v =
     (if 0 \<le> v \<and> v < 256 ^ w then Inr (be_bytes w (nat v)) else Inl StructError)"

text \<open>\<open>pack('!i', v)\<close>: two's complement on four bytes.\<close>

definition pack_int32 :: "int \<Rightarrow> error + bytes" where
  "pack_int32 v =
     (if - (2 ^ 31) \<le> v \<and> v < 2 ^ 31 then Inr (be_bytes 4 (nat (v mod 2 ^ 32)))
      else Inl StructError)"

definition unpack_unsigned :: "bytes \<Rightarrow> int" where
  "unpack_unsigned b = int (be_nat b)"

definition unpack_int32 :: "bytes \<Rightarrow> int" where
  "unpack_int32 b = (let u = int (be_nat b) in if 2 ^ 31 \<le> u then u - 2 ^ 32 else u)"

subsection \<open>The metadata record\<close>

text \<open>
  Modelled from the spec: class \<open>FileEntry\<close> of \<open>syncrypto/filetree.py\<close>, which is not
  among the sources. The spec gives its fields (pathname, size, ctime, mtime, mode,
  digest, salt and the directory flag) and its constructor
  \<open>FileEntry(pathname, size, ctime, mtime, mode, digest, is_dir)\<close>, which leaves the salt
  absent. The pathname is held as its UTF-8 encoding, so \<open>pathname.encode("utf-8")\<close> is
  the identity; size and mode are Python integers; the times are Python numbers, the
  floats that \<open>time()\<close> and \<open>os.stat\<close> give or integers, held as reals; an absent digest
  or salt is \<open>None\<close>.
\<close>

record file_entry =
  fe_pathname :: bytes
  fe_size :: int
  fe_ctime :: real
  fe_mtime :: real
  fe_mode :: int
  fe_digest :: "bytes option"
  fe_salt :: "bytes option"
  fe_isdir :: bool

definition FileEntry ::
  "bytes \<Rightarrow> int \<Rightarrow> real \<Rightarrow> real \<Rightarrow> int \<Rightarrow> bytes option \<Rightarrow> bool \<Rightarrow> file_entry" where
  "FileEntry p s c m md d isd =
     \<lparr>fe_pathname = p, fe_size = s, fe_ctime = c, fe_mtime = m, fe_mode = md,
      fe_digest = d, fe_salt = None, fe_isdir = isd\<rparr>"

subsection \<open>The footer codec\<close>

text \<open>
  Python's \<open>int(x)\<close> on a number: the fractional part is dropped, towards zero. (On a
  float that is infinite or not a number \<open>int\<close> raises; the reals have no such value.)
\<close>

definition py_int :: "real \<Rightarrow> int" where
  "py_int x = (if 0 \<le> x then \<lfloor>x\<rfloor> else \<lceil>x\<rceil>)"

text \<open>
  \<open>_build_footer\<close>. Python evaluates the sum left to right: \<open>pack('!Q', size)\<close> before
  the first concatenation (a \<open>TypeError\<close> when the digest is \<open>None\<close>), then the packs of
  \<open>int(ctime)\<close>, \<open>int(mtime)\<close> and mode.
\<close>

definition build_footer :: "file_entry \<Rightarrow> error + bytes" where
  "build_footer fe =
     (case pack_unsigned 8 (fe_size fe) of Inl e \<Rightarrow> Inl e | Inr sz \<Rightarrow>
     (case fe_digest fe of None \<Rightarrow> Inl TypeError | Some dg \<Rightarrow>
     (case pack_unsigned 4 (py_int (fe_ctime fe)) of Inl e \<Rightarrow> Inl e | Inr ct \<Rightarrow>
     (case pack_unsigned 4 (py_int (fe_mtime fe)) of Inl e \<Rightarrow> Inl e | Inr mt \<Rightarrow>
     (case pack_int32 (fe_mode fe) of Inl e \<Rightarrow> Inl e | Inr md \<Rightarrow>
        Inr (dg @ sz @ ct @ mt @ md @ replicate 12 0))))))"

text \<open>
  \<open>_unpack_footer\<close>. \<open>unpack('!QIIi', footer[16:36])\<close> raises \<open>struct.error\<close> unless the
  slice holds exactly 20 bytes.
\<close>

definition unpack_footer :: "bytes \<Rightarrow> bytes \<Rightarrow> error + file_entry" where
  "unpack_footer pathname footer =
     (let b = take 20 (drop 16 footer) in
      if length b \<noteq> 20 then Inl StructError
      else Inr (FileEntry pathname
                  (unpack_unsigned (take 8 b))
                  (of_int (unpack_unsigned (take 4 (drop 8 b))))
                  (of_int (unpack_unsigned (take 4 (drop 12 b))))
                  (unpack_int32 (take 4 (drop 16 b)))
                  (Some (take 16 footer)) False))"

subsection \<open>The library primitives and the engine's configuration\<close>

text \<open>
  \<open>md5\<close> is the 128-bit value of \<open>hashlib.md5(m).digest()\<close>; \<open>aes_encrypt k\<close> and
  \<open>aes_decrypt k\<close> are the AES block functions under key \<open>k\<close>, on 128-bit blocks;
  \<open>zlib_decompress\<close> is \<open>None\<close> where \<open>zlib.decompress\<close> raises; \<open>urandom n\<close> is
  \<open>os.urandom(n)\<close>; \<open>time k\<close> is the reading of the clock at its \<open>k\<close>-th call.
\<close>

record env =
  md5 :: "bytes \<Rightarrow> 128 word"
  aes_encrypt :: "bytes \<Rightarrow> 128 word \<Rightarrow> 128 word"
  aes_decrypt :: "bytes \<Rightarrow> 128 word \<Rightarrow> 128 word"
  zlib_compress :: "bytes \<Rightarrow> bytes"
  zlib_decompress :: "bytes \<Rightarrow> bytes option"
  urandom :: "nat \<Rightarrow> bytes"
  time :: "nat \<Rightarrow> real"

text \<open>
  What the engine relies on: decryption inverts encryption under the same key,
  decompression inverts compression, and \<open>os.urandom(n)\<close> returns \<open>n\<close> bytes.
\<close>

definition env_ok :: "env \<Rightarrow> bool" where
  "env_ok env \<longleftrightarrow>
     (\<forall>k b. aes_decrypt env k (aes_encrypt env k b) = b) \<and>
     (\<forall>m. zlib_decompress env (zlib_compress env m) = Some m) \<and>
     (\<forall>n. length (urandom env n) = n)"

text \<open>
  A \<open>Crypto\<close> object: \<open>self.password\<close> (already encoded to bytes) and \<open>self.key_size\<close>;
  \<open>self.block_size\<close> is always 16.
\<close>

record crypto =
  password :: bytes
  key_size :: nat

abbreviation VERSION :: nat where "VERSION \<equiv> 1"
abbreviation COMPRESS :: int where "COMPRESS \<equiv> 1"
abbreviation BUFFER_SIZE :: nat where "BUFFER_SIZE \<equiv> 1024"
abbreviation block_size :: nat where "block_size \<equiv> 16"

definition bytes_of :: "128 word \<Rightarrow> bytes" where
  "bytes_of w = be_bytes 16 (unat w)"

definition block_of :: "bytes \<Rightarrow> 128 word" where
  "block_of b = of_nat (be_nat b)"

text \<open>
  A \<open>hashlib.md5()\<close> object is the list of the bytes it was fed: \<open>update\<close> appends, and
  \<open>digest()\<close> hashes the whole.
\<close>

definition md5_digest :: "env \<Rightarrow> bytes \<Rightarrow> bytes" where
  "md5_digest env m = bytes_of (md5 env m)"

lemma length_be_bytes: "length (be_bytes n v) = n"
  by (induction n arbitrary: v) simp_all

lemma length_bytes_of: "length (bytes_of w) = 16"
  by (simp add: bytes_of_def length_be_bytes)

lemma length_md5_digest: "length (md5_digest env m) = 16"
  by (simp add: md5_digest_def length_bytes_of)

subsection \<open>Key derivation\<close>

function gen_key_loop :: "env \<Rightarrow> crypto \<Rightarrow> bytes \<Rightarrow> bytes \<Rightarrow> bytes \<Rightarrow> bytes" where
  "gen_key_loop env c salt d d_i =
     (if length d < key_size c + block_size
      then (let d_i' = md5_digest env (d_i @ password c @ salt)
            in gen_key_loop env c salt (d @ d_i') d_i')
      else d)"
  by pat_completeness auto
termination
  by (relation "measure (\<lambda>(env, c, salt, d, d_i). key_size c + 16 - length d)")
     (auto simp: length_md5_digest)

declare gen_key_loop.simps [simp del]

definition gen_key_and_iv :: "env \<Rightarrow> crypto \<Rightarrow> bytes \<Rightarrow> bytes \<times> bytes" where
  "gen_key_and_iv env c salt =
     (let d = gen_key_loop env c salt [] []
      in (take (key_size c) d, take block_size (drop (key_size c) d)))"

subsection \<open>Cipher contexts: AES in CBC mode\<close>

text \<open>
  An encryptor or decryptor of \<open>Cipher(algorithms.AES(key), modes.CBC(iv))\<close>: the key,
  the chaining block (the IV at first, then the last ciphertext block) and the bytes of
  an incomplete block held back by \<open>update\<close>. \<open>algorithms.AES\<close> raises \<open>ValueError\<close>
  for a key that is not 16, 24 or 32 bytes long, and the cipher for an IV that is not one
  block long. \<open>finalize\<close> raises \<open>ValueError\<close> when an incomplete block is left.
\<close>

record cipher_ctx =
  ctx_key :: bytes
  ctx_chain :: "128 word"
  ctx_pending :: bytes

definition new_cipher :: "bytes \<Rightarrow> bytes \<Rightarrow> error + cipher_ctx" where
  "new_cipher key iv =
     (if \<not> (length key = 16 \<or> length key = 24 \<or> length key = 32) then Inl ValueError
      else if length iv \<noteq> 16 then Inl ValueError
      else Inr \<lparr>ctx_key = key, ctx_chain = block_of iv, ctx_pending = []\<rparr>)"

primrec cbc_encrypt_blocks ::
  "(128 word \<Rightarrow> 128 word) \<Rightarrow> nat \<Rightarrow> 128 word \<Rightarrow> bytes \<Rightarrow> bytes \<times> 128 word" where
  "cbc_encrypt_blocks E 0 chain buf = ([], chain)"
| "cbc_encrypt_blocks E (Suc n) chain buf =
     (let ct = E (block_of (take 16 buf) XOR chain);
          r = cbc_encrypt_blocks E n ct (drop 16 buf)
      in (bytes_of ct @ fst r, snd r))"

primrec cbc_decrypt_blocks ::
  "(128 word \<Rightarrow> 128 word) \<Rightarrow> nat \<Rightarrow> 128 word \<Rightarrow> bytes \<Rightarrow> bytes \<times> 128 word" where
  "cbc_decrypt_blocks D 0 chain buf = ([], chain)"
| "cbc_decrypt_blocks D (Suc n) chain buf =
     (let ct = block_of (take 16 buf);
          r = cbc_decrypt_blocks D n ct (drop 16 buf)
      in (bytes_of (D ct XOR chain) @ fst r, snd r))"

text \<open>
  \<open>update(data)\<close>: the complete blocks of the held-back bytes followed by \<open>data\<close> are
  processed; the rest is held back.
\<close>

definition encryptor_update :: "env \<Rightarrow> cipher_ctx \<Rightarrow> bytes \<Rightarrow> bytes \<times> cipher_ctx" where
  "encryptor_update env ctx data =
     (let buf = ctx_pending ctx @ data;
          n = length buf div 16;
          r = cbc_encrypt_blocks (aes_encrypt env (ctx_key ctx)) n (ctx_chain ctx) buf
      in (fst r, ctx\<lparr>ctx_chain := snd r, ctx_pending := drop (16 * n) buf\<rparr>))"

definition decryptor_update :: "env \<Rightarrow> cipher_ctx \<Rightarrow> bytes \<Rightarrow> bytes \<times> cipher_ctx" where
  "decryptor_update env ctx data =
     (let buf = ctx_pending ctx @ data;
          n = length buf div 16;
          r = cbc_decrypt_blocks (aes_decrypt env (ctx_key ctx)) n (ctx_chain ctx) buf
      in (fst r, ctx\<lparr>ctx_chain := snd r, ctx_pending := drop (16 * n) buf\<rparr>))"

definition cipher_finalize :: "cipher_ctx \<Rightarrow> error + bytes" where
  "cipher_finalize ctx = (if ctx_pending ctx = [] then Inr [] else Inl ValueError)"

subsection \<open>\<open>encrypt_fd\<close>\<close>

text \<open>
  The content loop of \<open>encrypt_fd\<close>: read a chunk of \<open>BUFFER_SIZE * bs\<close> bytes, feed it to
  the digest, pad it and finish when it is empty or not block-aligned, encrypt and write
  it. \<open>(bs - len(chunk) % bs) or bs\<close> is Python's \<open>or\<close>: the left value unless it is 0. The
  result is the loop's final state: input stream, encryptor, digest and output stream.
\<close>

function encrypt_loop ::
  "env \<Rightarrow> bytes \<Rightarrow> cipher_ctx \<Rightarrow> bytes \<Rightarrow> bytes list \<Rightarrow> bytes \<times> cipher_ctx \<times> bytes \<times> bytes list" where
  "encrypt_loop env in_fd encryptor md5acc out_fd =
     (let chunk = fst (fd_read in_fd (BUFFER_SIZE * block_size));
          in_fd' = snd (fd_read in_fd (BUFFER_SIZE * block_size));
          md5acc' = md5acc @ chunk
      in if length chunk = 0 \<or> length chunk mod block_size \<noteq> 0
         then (let padding_length =
                     (if block_size - length chunk mod block_size \<noteq> 0
                      then block_size - length chunk mod block_size else block_size);
                   chunk' = chunk @ concat (replicate padding_length (be_bytes 1 padding_length));
                   r = encryptor_update env encryptor chunk'
               in (in_fd', snd r, md5acc', fd_write out_fd (fst r)))
         else (let r = encryptor_update env encryptor chunk
               in encrypt_loop env in_fd' (snd r) md5acc' (fd_write out_fd (fst r))))"
  by pat_completeness auto
termination
  by (relation "measure (\<lambda>(env, in_fd, encryptor, md5acc, out_fd). length in_fd)")
     (auto simp: fd_read_def)

declare encrypt_loop.simps [simp del]

text \<open>
  \<open>encrypt_fd(in_fd, out_fd, file_entry, flags)\<close>, with \<open>out_fd\<close> empty at the call. The
  result is the returned entry (or the exception raised) and what was written to
  \<open>out_fd\<close> up to that point.
\<close>

definition encrypt_fd ::
  "env \<Rightarrow> crypto \<Rightarrow> bytes \<Rightarrow> file_entry option \<Rightarrow> int \<Rightarrow> (error + file_entry) \<times> bytes list" where
  "encrypt_fd env c in_fd file_entry flags =
     (let bs = block_size;
          fe0 = (case file_entry of
                   None \<Rightarrow> FileEntry [0x2E, 0x74, 0x6D, 0x70] 0 (time env 0) (time env 1) 0 None False
                 | Some fe \<Rightarrow> fe);
          salt = (case fe_salt fe0 of None \<Rightarrow> urandom env (bs - 4) | Some s \<Rightarrow> s);
          fe1 = fe0\<lparr>fe_salt := Some salt\<rparr>;
          kiv = gen_key_and_iv env c salt
      in case new_cipher (fst kiv) (snd kiv) of Inl e \<Rightarrow> (Inl e, []) | Inr encryptor \<Rightarrow>
     (let pathname = take (2 ^ 16) (fe_pathname fe1);
          pathname_size = length pathname;
          pathname_padding =
            (if pathname_size mod bs \<noteq> 0 then replicate (bs - pathname_size mod bs) 0 else []);
          flags' = flags AND 0xFF;
          out1 = fd_write [] ([of_nat VERSION, of_int flags'])
      in case pack_unsigned 2 (int pathname_size) of Inl e \<Rightarrow> (Inl e, out1) | Inr psz \<Rightarrow>
     (let out2 = fd_write out1 psz;
          out3 = fd_write out2 salt;
          r1 = encryptor_update env encryptor (pathname @ pathname_padding);
          out4 = fd_write out3 (fst r1);
          in_fd' = (if flags' AND COMPRESS \<noteq> 0 then zlib_compress env in_fd else in_fd);
          lp = encrypt_loop env in_fd' (snd r1) [] out4;
          encryptor2 = fst (snd lp);
          out5 = snd (snd (snd lp));
          fe2 = fe1\<lparr>fe_digest := Some (md5_digest env (fst (snd (snd lp))))\<rparr>
      in case build_footer fe2 of Inl e \<Rightarrow> (Inl e, out5) | Inr footer \<Rightarrow>
     (let r2 = encryptor_update env encryptor2 footer;
          out6 = fd_write out5 (fst r2)
      in case cipher_finalize (snd r2) of Inl e \<Rightarrow> (Inl e, out6) | Inr fin \<Rightarrow>
           (Inr fe2, fd_write out6 fin)))))"

subsection \<open>\<open>decrypt_fd\<close>\<close>

text \<open>
  Python's slices: \<open>s[-n:]\<close> and \<open>s[:-n]\<close> for \<open>n > 0\<close>, and \<open>s[-49:-48]\<close>; an index
  before the start of the string is clamped to 0. \<open>bytearray(s)[0]\<close> raises
  \<open>IndexError\<close> on an empty string.
\<close>

definition slice_last :: "nat \<Rightarrow> bytes \<Rightarrow> bytes" where
  "slice_last n s = drop (length s - n) s"

definition slice_butlast :: "nat \<Rightarrow> bytes \<Rightarrow> bytes" where
  "slice_butlast n s = take (length s - n) s"

definition slice_neg :: "nat \<Rightarrow> nat \<Rightarrow> bytes \<Rightarrow> bytes" where
  "slice_neg m n s = drop (length s - m) (take (length s - n) s)"

definition byte0 :: "bytes \<Rightarrow> error + nat" where
  "byte0 s = (case s of [] \<Rightarrow> Inl IndexError | x # _ \<Rightarrow> Inr (unat x))"

text \<open>
  \<open>int((pathname_size/bs+1) * bs)\<close> under \<open>from __future__ import division\<close>: the division
  is true division, not floor division, and \<open>int\<close> truncates its (non-negative) result.
  The operands are below \<open>2 ^ 16\<close> and the divisor is a power of two, so the floating-point
  computation is exact.
\<close>

definition pathname_block_size :: "nat \<Rightarrow> nat" where
  "pathname_block_size pathname_size =
     (if pathname_size mod block_size \<noteq> 0
      then nat \<lfloor>(real pathname_size / real block_size + 1) * real block_size\<rfloor>
      else pathname_size)"

text \<open>
  Lines 176 to 201 of \<open>decrypt_fd\<close>: the header and the pathname region. The result is
  the exception raised and the input stream at that point, or the flags, the salt, the
  pathname, the decryptor and the input stream after the pathname region.
\<close>

definition decrypt_header ::
  "env \<Rightarrow> crypto \<Rightarrow> bytes \<Rightarrow> error \<times> bytes + int \<times> bytes \<times> bytes \<times> cipher_ctx \<times> bytes" where
  "decrypt_header env c in_fd =
     (let bs = block_size;
          line = fst (fd_read in_fd bs);
          in_fd1 = snd (fd_read in_fd bs)
      in if length line < bs then Inl (UnrecognizedContent, in_fd1)
         else
     (let ints = take 2 line;
          version = unat (ints ! 0)
      in if version > VERSION then Inl (VersionNotCompatible, in_fd1)
         else
     (let flags = uint (ints ! 1);
          pathname_size = nat (unpack_unsigned (take 2 (drop 2 line)));
          salt = drop 4 line;
          kiv = gen_key_and_iv env c salt
      in case new_cipher (fst kiv) (snd kiv) of
           Inl e \<Rightarrow> Inl (e, in_fd1)
         | Inr decryptor \<Rightarrow>
     (let pbs = pathname_block_size pathname_size;
          pathname_data = fst (fd_read in_fd1 pbs);
          in_fd2 = snd (fd_read in_fd1 pbs)
      in if length pathname_data < pbs then Inl (UnrecognizedContent, in_fd2)
         else
     (let r = decryptor_update env decryptor pathname_data;
          pathname = take pathname_size (fst r)
      in Inr (flags, salt, pathname, snd r, in_fd2))))))"

text \<open>
  Lines 213 to 216: the footer, the padding length and the content of the last chunk,
  from the plaintext of the last chunk. Python evaluates \<open>plaintext[-48:]\<close> and unpacks
  the footer first, then reads the byte before it.
\<close>

definition decrypt_last_chunk ::
  "bytes \<Rightarrow> bytes \<Rightarrow> bytes \<Rightarrow> bytes \<Rightarrow> bytes \<Rightarrow> (error + file_entry \<times> bytes \<times> bytes) \<times> bytes" where
  "decrypt_last_chunk pathname plaintext str_io md5acc in_fd =
     (case unpack_footer pathname (slice_last 48 plaintext) of
        Inl e \<Rightarrow> (Inl e, in_fd)
      | Inr file_entry \<Rightarrow>
     (case byte0 (slice_neg 49 48 plaintext) of
        Inl e \<Rightarrow> (Inl e, in_fd)
      | Inr padding_length \<Rightarrow>
     (let plaintext' = slice_butlast (padding_length + 48) plaintext
      in (Inr (file_entry, str_io @ plaintext', md5acc @ plaintext'), in_fd))))"

text \<open>
  Lines 204 to 218: the lookahead loop, from \<open>while not finished\<close> to the end of its
  body. \<open>None\<close> means that the loop runs forever. Otherwise the result is the exception
  raised inside the loop or the entry unpacked from the footer, the buffer \<open>str_io\<close> and
  the digest, together with the input stream at that point.
\<close>

partial_function (option) decrypt_loop ::
  "env \<Rightarrow> bytes \<Rightarrow> bytes \<Rightarrow> bytes \<Rightarrow> cipher_ctx \<Rightarrow> bytes \<Rightarrow> bytes \<Rightarrow>
     ((error + file_entry \<times> bytes \<times> bytes) \<times> bytes) option" where
  "decrypt_loop env pathname next_chunk in_fd decryptor str_io md5acc =
     (let chunk = next_chunk;
          next_chunk' = fst (fd_read in_fd (BUFFER_SIZE * block_size));
          in_fd' = snd (fd_read in_fd (BUFFER_SIZE * block_size))
      in if chunk \<noteq> []
         then (let r = decryptor_update env decryptor chunk;
                   plaintext = fst r
               in if length next_chunk' = 0
                  then (case cipher_finalize (snd r) of
                          Inl e \<Rightarrow> Some (Inl e, in_fd')
                        | Inr fin \<Rightarrow>
                            Some (decrypt_last_chunk pathname (plaintext @ fin)
                                    str_io md5acc in_fd'))
                  else decrypt_loop env pathname next_chunk' in_fd' (snd r)
                         (str_io @ plaintext) (md5acc @ plaintext))
         else decrypt_loop env pathname next_chunk' in_fd' decryptor str_io md5acc)"

declare decrypt_loop.simps [code]

text \<open>
  Lines 219 to 233: decompression, the digest comparison and the write to \<open>out_fd\<close>. The
  result is the returned entry (or the exception raised), the input stream and what was
  written to \<open>out_fd\<close>.
\<close>

definition decrypt_verify ::
  "env \<Rightarrow> int \<Rightarrow> bytes \<Rightarrow> file_entry \<Rightarrow> bytes \<Rightarrow> bytes \<Rightarrow> bytes \<Rightarrow>
     (error + file_entry) \<times> bytes \<times> bytes list" where
  "decrypt_verify env flags salt file_entry str_io md5acc in_fd =
     (case (if flags AND COMPRESS \<noteq> 0
            then (case zlib_decompress env str_io of
                    None \<Rightarrow> Inl ZlibError | Some b \<Rightarrow> Inr b)
            else Inr str_io) of
        Inl e \<Rightarrow> (Inl e, in_fd, [])
      | Inr str_io' \<Rightarrow>
     (let file_entry' = file_entry\<lparr>fe_salt := Some salt\<rparr>
      in if fe_digest file_entry' \<noteq> Some (take block_size (md5_digest env md5acc))
         then (Inl DigestMissMatch, in_fd, [])
         else (Inr file_entry', in_fd, fd_write [] str_io')))"

text \<open>
  \<open>decrypt_fd(in_fd, out_fd)\<close>, with \<open>out_fd\<close> empty at the call. \<open>None\<close> means that the call
  does not return. Otherwise the result is the returned entry (or the exception raised),
  the input stream and what was written to \<open>out_fd\<close>, at that point.
\<close>

definition decrypt_fd ::
  "env \<Rightarrow> crypto \<Rightarrow> bytes \<Rightarrow> ((error + file_entry) \<times> bytes \<times> bytes list) option" where
  "decrypt_fd env c in_fd =
     (case decrypt_header env c in_fd of
        Inl (e, in_fd1) \<Rightarrow> Some (Inl e, in_fd1, [])
      | Inr (flags, salt, pathname, decryptor, in_fd2) \<Rightarrow>
     (case decrypt_loop env pathname [] in_fd2 decryptor [] [] of
        None \<Rightarrow> None
      | Some (Inl e, in_fd3) \<Rightarrow> Some (Inl e, in_fd3, [])
      | Some (Inr (file_entry, str_io, md5acc), in_fd3) \<Rightarrow>
          Some (decrypt_verify env flags salt file_entry str_io md5acc in_fd3)))"

subsection \<open>The specification's reading of key derivation and padding\<close>

text \<open>
  The key derivation in the specification's words: \<open>derive_rolling n\<close> is the rolling
  digest \<open>d_i\<close> after \<open>n\<close> rounds, \<open>derive_accum n\<close> the accumulator \<open>d\<close> after \<open>n\<close>
  rounds, and \<open>derive\<close> stops at the first round count whose accumulator holds at least
  \<open>key_size + block_size\<close> bytes.
\<close>

primrec derive_rolling :: "env \<Rightarrow> bytes \<Rightarrow> bytes \<Rightarrow> nat \<Rightarrow> bytes" where
  "derive_rolling env pw salt 0 = []"
| "derive_rolling env pw salt (Suc n) = md5_digest env (derive_rolling env pw salt n @ pw @ salt)"

primrec derive_accum :: "env \<Rightarrow> bytes \<Rightarrow> bytes \<Rightarrow> nat \<Rightarrow> bytes" where
  "derive_accum env pw salt 0 = []"
| "derive_accum env pw salt (Suc n) = derive_accum env pw salt n @ derive_rolling env pw salt (Suc n)"

definition derive :: "env \<Rightarrow> bytes \<Rightarrow> bytes \<Rightarrow> nat \<Rightarrow> (bytes \<times> bytes) option" where
  "derive env pw salt ks =
     (case find (\<lambda>n. ks + block_size \<le> length (derive_accum env pw salt n))
             [0..<Suc (ks + block_size)] of
        None \<Rightarrow> None
      | Some n \<Rightarrow> Some (take ks (derive_accum env pw salt n),
                        take block_size (drop ks (derive_accum env pw salt n))))"


text \<open>
  The trailing padding of a content of \<open>n\<close> bytes: \<open>block_size - n mod block_size\<close> bytes
  of that value.
\<close>

definition pkcs_padding :: "nat \<Rightarrow> bytes" where
  "pkcs_padding n = replicate (16 - n mod 16) (of_nat (16 - n mod 16))"


text \<open>
  The plaintext of a whole ciphertext stream \<open>s\<close> under a fresh decryptor \<open>ctx\<close> (the
  complete blocks of \<open>s\<close>), and the state of that decryptor after it has been fed the
  first \<open>n\<close> bytes of \<open>s\<close>, in whatever pieces.
\<close>

definition cbc_plain :: "env \<Rightarrow> cipher_ctx \<Rightarrow> bytes \<Rightarrow> bytes" where
  "cbc_plain env ctx s =
     fst (cbc_decrypt_blocks (aes_decrypt env (ctx_key ctx)) (length s div 16) (ctx_chain ctx) s)"

definition dec_after :: "env \<Rightarrow> cipher_ctx \<Rightarrow> bytes \<Rightarrow> nat \<Rightarrow> cipher_ctx" where
  "dec_after env ctx s n =
     ctx\<lparr>ctx_chain := snd (cbc_decrypt_blocks (aes_decrypt env (ctx_key ctx)) (n div 16)
                            (ctx_chain ctx) s),
         ctx_pending := drop (16 * (n div 16)) (take n s)\<rparr>"

text \<open>
  The key sizes AES accepts; the cipher context that \<open>encrypt_fd\<close> and \<open>decrypt_fd\<close>
  start from; and the pathname length and the salt as the header of a stream gives them.
\<close>

definition key_size_ok :: "crypto \<Rightarrow> bool" where
  "key_size_ok c \<longleftrightarrow> key_size c = 16 \<or> key_size c = 24 \<or> key_size c = 32"

definition initial_ctx :: "env \<Rightarrow> crypto \<Rightarrow> bytes \<Rightarrow> cipher_ctx" where
  "initial_ctx env c salt =
     \<lparr>ctx_key = fst (gen_key_and_iv env c salt),
      ctx_chain = block_of (snd (gen_key_and_iv env c salt)),
      ctx_pending = []\<rparr>"

definition header_pathname_size :: "bytes \<Rightarrow> nat" where
  "header_pathname_size in_fd = nat (unpack_unsigned (take 2 (drop 2 (take 16 in_fd))))"

definition header_salt :: "bytes \<Rightarrow> bytes" where
  "header_salt in_fd = drop 4 (take 16 in_fd)"

text \<open>
  A small concrete environment and engine, for evaluating the operations on concrete
  inputs: an additive block function with its inverse, a checksum in place of the hash, a
  one-byte prefix in place of compression.
\<close>

definition toy_env :: env where
  "toy_env =
     \<lparr>md5 = (\<lambda>m. of_nat (be_nat m + length m)),
      aes_encrypt = (\<lambda>k b. b + block_of k + 1),
      aes_decrypt = (\<lambda>k b. b - block_of k - 1),
      zlib_compress = (\<lambda>m. 0x78 # m),
      zlib_decompress = (\<lambda>m. case m of [] \<Rightarrow> None | x # r \<Rightarrow> if x = 0x78 then Some r else None),
      urandom = (\<lambda>n. replicate n 0xAB),
      time = (\<lambda>k. 2893190401 / 2 + real k)\<rparr>"

definition toy_crypto :: crypto where
  "toy_crypto = \<lparr>password = [0x70, 0x77], key_size = 32\<rparr>"

text \<open>
  The ranges of the values \<open>_build_footer\<close> packs (outside them \<open>struct.pack\<close> raises), and a
  metadata record that \<open>encrypt_fd\<close> accepts: fields in range, a pathname whose length
  fits the header's 16-bit field, and a salt of \<open>block_size - 4\<close> bytes when there is one.
\<close>

definition footer_fields_ok :: "file_entry \<Rightarrow> bool" where
  "footer_fields_ok fe \<longleftrightarrow>
     0 \<le> fe_size fe \<and> fe_size fe < 2 ^ 64 \<and>
     0 \<le> py_int (fe_ctime fe) \<and> py_int (fe_ctime fe) < 2 ^ 32 \<and>
     0 \<le> py_int (fe_mtime fe) \<and> py_int (fe_mtime fe) < 2 ^ 32 \<and>
     - (2 ^ 31) \<le> fe_mode fe \<and> fe_mode fe < 2 ^ 31"

definition footer_bytes :: "bytes \<Rightarrow> file_entry \<Rightarrow> bytes" where
  "footer_bytes dg fe =
     dg @ be_bytes 8 (nat (fe_size fe)) @ be_bytes 4 (nat (py_int (fe_ctime fe))) @
     be_bytes 4 (nat (py_int (fe_mtime fe))) @ be_bytes 4 (nat (fe_mode fe mod 2 ^ 32))"

text \<open>
  The container as a whole. \<open>cbc_cipher\<close> is the ciphertext of a block-aligned plaintext
  under a fresh encryptor; \<open>container_plain\<close> is what lies under the cipher: the pathname
  zero-padded to a block boundary, the content with its trailing padding, the footer;
  \<open>container\<close> is the 16-byte header followed by the ciphertext.
\<close>

definition cbc_cipher :: "env \<Rightarrow> cipher_ctx \<Rightarrow> bytes \<Rightarrow> bytes" where
  "cbc_cipher env ctx pt =
     fst (cbc_encrypt_blocks (aes_encrypt env (ctx_key ctx)) (length pt div 16) (ctx_chain ctx) pt)"

definition pathname_padding :: "nat \<Rightarrow> bytes" where
  "pathname_padding n = (if n mod 16 \<noteq> 0 then replicate (16 - n mod 16) 0 else [])"

definition container_plain :: "bytes \<Rightarrow> bytes \<Rightarrow> bytes \<Rightarrow> bytes" where
  "container_plain pathname content footer =
     (pathname @ pathname_padding (length pathname)) @
     (content @ pkcs_padding (length content)) @ footer"

definition container :: "env \<Rightarrow> crypto \<Rightarrow> bytes \<Rightarrow> byte \<Rightarrow> bytes \<Rightarrow> bytes \<Rightarrow> bytes \<Rightarrow> bytes" where
  "container env c salt flags pathname content footer =
     [of_nat VERSION, flags] @ be_bytes 2 (length pathname) @ salt @
     cbc_cipher env (initial_ctx env c salt) (container_plain pathname content footer)"

definition wf_entry :: "file_entry \<Rightarrow> bool" where
  "wf_entry fe \<longleftrightarrow>
     footer_fields_ok fe \<and> length (fe_pathname fe) < 2 ^ 16 \<and>
     (case fe_salt fe of None \<Rightarrow> True | Some s \<Rightarrow> length s = 12)"

text \<open>What \<open>encrypt_fd\<close> encrypts as content, the salt it uses and the entry it returns.\<close>

definition encrypt_data :: "env \<Rightarrow> int \<Rightarrow> bytes \<Rightarrow> bytes" where
  "encrypt_data env flags in_fd =
     (if (flags AND 0xFF) AND COMPRESS \<noteq> 0 then zlib_compress env in_fd else in_fd)"

definition encrypt_salt :: "env \<Rightarrow> file_entry \<Rightarrow> bytes" where
  "encrypt_salt env fe = (case fe_salt fe of None \<Rightarrow> urandom env (block_size - 4) | Some s \<Rightarrow> s)"

definition encrypt_entry :: "env \<Rightarrow> int \<Rightarrow> bytes \<Rightarrow> file_entry \<Rightarrow> file_entry" where
  "encrypt_entry env flags in_fd fe =
     fe\<lparr>fe_salt := Some (encrypt_salt env fe),
        fe_digest := Some (md5_digest env (encrypt_data env flags in_fd))\<rparr>"

definition toy_entry :: file_entry where
  "toy_entry = FileEntry [0x61, 0x2E, 0x74, 0x78, 0x74] 3 (201 / 2) (2009 / 10) (- 5) None False"

text \<open>
  The number of plaintext bytes that the last iteration of the loop of \<open>decrypt_fd\<close>
  holds, on the container of a pathname of \<open>ps\<close> bytes and a content of \<open>n\<close> bytes: the
  reads of the loop start after the pathname block and are \<open>BUFFER_SIZE * block_size\<close>
  bytes long, and the last of them is decrypted together with the bytes the decryptor
  held back.
\<close>

definition container_tail :: "nat \<Rightarrow> nat \<Rightarrow> nat" where
  "container_tail ps n =
     (let total = 16 * ((ps + 15) div 16) + 16 * Suc (n div 16) + 48;
          pbs = pathname_block_size ps;
          start = pbs + 16384 * ((total - pbs - 1) div 16384)
      in total - 16 * (start div 16))"

text \<open>
  The entry that \<open>decrypt_fd\<close> returns for the container \<open>encrypt_fd\<close> made of an entry: the
  pathname, size and mode of the entry, its times truncated to whole seconds, the digest
  of the encrypted content, the salt of the header, and no directory flag.
\<close>

definition decrypted_entry :: "env \<Rightarrow> int \<Rightarrow> bytes \<Rightarrow> file_entry \<Rightarrow> file_entry" where
  "decrypted_entry env flags in_fd fe =
     (FileEntry (fe_pathname fe) (fe_size fe) (of_int (py_int (fe_ctime fe)))
        (of_int (py_int (fe_mtime fe))) (fe_mode fe)
        (Some (md5_digest env (encrypt_data env flags in_fd))) False)
     \<lparr>fe_salt := Some (encrypt_salt env fe)\<rparr>"

section \<open>Properties\<close>

subsection \<open>Byte strings and integers\<close>

lemma be_nat_snoc: "be_nat (b @ [x]) = be_nat b * 256 + unat x"
  by (simp add: be_nat_def)

lemma be_nat_Nil: "be_nat [] = 0"
  by (simp add: be_nat_def)

lemma be_nat_be_bytes: "be_nat (be_bytes n v) = v mod 256 ^ n"
proof (induction n arbitrary: v)
  case 0
  show ?case by (simp add: be_nat_Nil)
next
  case (Suc n)
  have u: "unat (of_nat (v mod 256) :: byte) = v mod 256"
    by (simp add: unat_of_nat)
  have "v mod (256 * 256 ^ n) = 256 * (v div 256 mod 256 ^ n) + v mod 256"
    by (rule mod_mult2_eq)
  with Suc u show ?case
    by (simp add: be_nat_snoc)
qed

lemma be_nat_lt: "be_nat b < 256 ^ length b"
proof (induction b rule: rev_induct)
  case Nil
  show ?case by (simp add: be_nat_Nil)
next
  case (snoc x xs)
  have "unat x < 256" using unsigned_less [of x] by simp
  with snoc show ?case by (simp add: be_nat_snoc)
qed

lemma be_bytes_be_nat: "length b = n \<Longrightarrow> be_bytes n (be_nat b) = b"
proof (induction b arbitrary: n rule: rev_induct)
  case Nil
  then show ?case by simp
next
  case (snoc x xs)
  have x: "unat x < 256" using unsigned_less [of x] by simp
  from snoc.prems obtain m where n: "n = Suc m" and m: "length xs = m" by (cases n) auto
  have d: "(be_nat xs * 256 + unat x) div 256 = be_nat xs" using x by simp
  have r: "(be_nat xs * 256 + unat x) mod 256 = unat x" using x by simp
  have r2: "unat x mod 256 = unat x" using x by simp
  show ?case using snoc.IH [OF m] by (simp add: n be_nat_snoc d r r2)
qed

lemma block_of_bytes_of: "block_of (bytes_of w) = w"
proof -
  have "unat w < 2 ^ 128" using unsigned_less [of w] by simp
  then have "unat w mod 256 ^ 16 = unat w" by simp
  then show ?thesis by (simp add: block_of_def bytes_of_def be_nat_be_bytes)
qed

lemma bytes_of_block_of: "length b = 16 \<Longrightarrow> bytes_of (block_of b) = b"
proof -
  assume l: "length b = 16"
  have "be_nat b < 256 ^ 16" using be_nat_lt [of b] l by simp
  then have "unat (of_nat (be_nat b) :: 128 word) = be_nat b"
    by (simp add: unat_of_nat)
  then show ?thesis by (simp add: block_of_def bytes_of_def be_bytes_be_nat l)
qed


subsection \<open>CBC chaining\<close>

lemma length_cbc_encrypt_blocks: "length (fst (cbc_encrypt_blocks E n ch buf)) = 16 * n"
  by (induction n arbitrary: ch buf) (simp_all add: Let_def length_bytes_of)

lemma length_cbc_decrypt_blocks: "length (fst (cbc_decrypt_blocks D n ch buf)) = 16 * n"
  by (induction n arbitrary: ch buf) (simp_all add: Let_def length_bytes_of)

lemma cbc_decrypt_blocks_cong:
  "take (16 * n) buf = take (16 * n) buf' \<Longrightarrow>
   cbc_decrypt_blocks D n ch buf = cbc_decrypt_blocks D n ch buf'"
proof (induction n arbitrary: ch buf buf')
  case 0
  show ?case by simp
next
  case (Suc n)
  from Suc.prems have "take 16 (take (16 * Suc n) buf) = take 16 (take (16 * Suc n) buf')" by simp
  then have h: "take 16 buf = take 16 buf'" by (simp add: min_def)
  from Suc.prems have "drop 16 (take (16 * Suc n) buf) = drop 16 (take (16 * Suc n) buf')" by simp
  then have t: "take (16 * n) (drop 16 buf) = take (16 * n) (drop 16 buf')"
    by (simp add: drop_take)
  show ?case using Suc.IH [OF t] h by (simp add: Let_def)
qed

lemma cbc_encrypt_blocks_cong:
  "take (16 * n) buf = take (16 * n) buf' \<Longrightarrow>
   cbc_encrypt_blocks E n ch buf = cbc_encrypt_blocks E n ch buf'"
proof (induction n arbitrary: ch buf buf')
  case 0
  show ?case by simp
next
  case (Suc n)
  from Suc.prems have "take 16 (take (16 * Suc n) buf) = take 16 (take (16 * Suc n) buf')" by simp
  then have h: "take 16 buf = take 16 buf'" by (simp add: min_def)
  from Suc.prems have "drop 16 (take (16 * Suc n) buf) = drop 16 (take (16 * Suc n) buf')" by simp
  then have t: "take (16 * n) (drop 16 buf) = take (16 * n) (drop 16 buf')"
    by (simp add: drop_take)
  show ?case using Suc.IH [OF t] h by (simp add: Let_def)
qed

lemma cbc_decrypt_blocks_add:
  "cbc_decrypt_blocks D (m + n) ch buf =
     (fst (cbc_decrypt_blocks D m ch buf) @
        fst (cbc_decrypt_blocks D n (snd (cbc_decrypt_blocks D m ch buf)) (drop (16 * m) buf)),
      snd (cbc_decrypt_blocks D n (snd (cbc_decrypt_blocks D m ch buf)) (drop (16 * m) buf)))"
  by (induction m arbitrary: ch buf) (simp_all add: Let_def add.commute)

lemma cbc_encrypt_blocks_add:
  "cbc_encrypt_blocks E (m + n) ch buf =
     (fst (cbc_encrypt_blocks E m ch buf) @
        fst (cbc_encrypt_blocks E n (snd (cbc_encrypt_blocks E m ch buf)) (drop (16 * m) buf)),
      snd (cbc_encrypt_blocks E n (snd (cbc_encrypt_blocks E m ch buf)) (drop (16 * m) buf)))"
  by (induction m arbitrary: ch buf) (simp_all add: Let_def add.commute)

lemma cbc_decrypt_encrypt:
  assumes inv: "\<And>b. D (E b) = b"
  shows "16 * n \<le> length buf \<Longrightarrow>
     cbc_decrypt_blocks D n ch (fst (cbc_encrypt_blocks E n ch buf) @ rest) =
       (take (16 * n) buf, snd (cbc_encrypt_blocks E n ch buf))"
proof (induction n arbitrary: ch buf)
  case 0
  show ?case by simp
next
  case (Suc n)
  let ?ct = "E (block_of (take 16 buf) XOR ch)"
  have l: "length (take 16 buf) = 16" using Suc.prems by simp
  have le: "16 * n \<le> length (drop 16 buf)" using Suc.prems by simp
  have x: "(block_of (take 16 buf) XOR ch) XOR ch = block_of (take 16 buf)"
    by (simp add: xor.assoc)
  have t: "take 16 buf @ take (16 * n) (drop 16 buf) = take (16 * Suc n) buf"
    by (simp add: take_add [symmetric])
  show ?case
    using Suc.IH [OF le, of ?ct] t
    by (simp add: Let_def length_bytes_of block_of_bytes_of inv x bytes_of_block_of [OF l])
qed

subsection \<open>The content loop of \<open>encrypt_fd\<close>\<close>

lemma length_pkcs_padding: "length (pkcs_padding n) = 16 - n mod 16"
  by (simp add: pkcs_padding_def)

lemma pkcs_padding_cong: "m mod 16 = n mod 16 \<Longrightarrow> pkcs_padding m = pkcs_padding n"
  by (simp add: pkcs_padding_def)

lemma be_bytes_1: "be_bytes (Suc 0) p = [of_nat (p mod 256)]"
  by simp

lemma concat_replicate_single: "concat (replicate n [x]) = replicate n x"
  by (induction n) simp_all

lemma encryptor_update_aligned:
  "ctx_pending ctx = [] \<Longrightarrow> length data = 16 * n \<Longrightarrow>
   encryptor_update env ctx data =
     (fst (cbc_encrypt_blocks (aes_encrypt env (ctx_key ctx)) n (ctx_chain ctx) data),
      ctx\<lparr>ctx_chain := snd (cbc_encrypt_blocks (aes_encrypt env (ctx_key ctx)) n (ctx_chain ctx) data),
          ctx_pending := []\<rparr>)"
  by (simp add: encryptor_update_def Let_def)

lemma padded_div: "(n + (16 - n mod 16)) div 16 = Suc (n div 16)"
  by presburger

lemma padded_len: "n + (16 - n mod 16) = 16 * Suc (n div 16)"
  by presburger

lemma encrypt_loop_last:
  "length in_fd < 16384 \<Longrightarrow> in_fd = [] \<or> length in_fd mod 16 \<noteq> 0 \<Longrightarrow>
   encrypt_loop env in_fd enc acc out =
     ([], snd (encryptor_update env enc (in_fd @ pkcs_padding (length in_fd))), acc @ in_fd,
      out @ [fst (encryptor_update env enc (in_fd @ pkcs_padding (length in_fd)))])"
  by (subst encrypt_loop.simps)
     (auto simp add: Let_def fd_read_def fd_write_def pkcs_padding_def concat_replicate_single)

lemma encrypt_loop_step:
  "take 16384 in_fd \<noteq> [] \<Longrightarrow> length (take 16384 in_fd) mod 16 = 0 \<Longrightarrow>
   encrypt_loop env in_fd enc acc out =
     encrypt_loop env (drop 16384 in_fd) (snd (encryptor_update env enc (take 16384 in_fd)))
       (acc @ take 16384 in_fd) (out @ [fst (encryptor_update env enc (take 16384 in_fd))])"
  by (subst encrypt_loop.simps) (simp add: Let_def fd_read_def fd_write_def)

lemma encrypt_loop_result_last:
  assumes p: "ctx_pending enc = []" and short: "length in_fd < 16384"
    and c: "in_fd = [] \<or> length in_fd mod 16 \<noteq> 0"
  shows "\<exists>out'. encrypt_loop env in_fd enc acc out =
       ([],
        enc\<lparr>ctx_chain := snd (cbc_encrypt_blocks (aes_encrypt env (ctx_key enc))
                (Suc (length in_fd div 16)) (ctx_chain enc) (in_fd @ pkcs_padding (length in_fd))),
            ctx_pending := []\<rparr>,
        acc @ in_fd, out') \<and>
     concat out' = concat out @ fst (cbc_encrypt_blocks (aes_encrypt env (ctx_key enc))
                (Suc (length in_fd div 16)) (ctx_chain enc) (in_fd @ pkcs_padding (length in_fd)))"
proof -
  define R where "R = cbc_encrypt_blocks (aes_encrypt env (ctx_key enc))
                (Suc (length in_fd div 16)) (ctx_chain enc) (in_fd @ pkcs_padding (length in_fd))"
  have len: "length (in_fd @ pkcs_padding (length in_fd)) = 16 * Suc (length in_fd div 16)"
    by (simp add: length_pkcs_padding padded_len)
  have e: "encrypt_loop env in_fd enc acc out =
     ([], enc\<lparr>ctx_chain := snd R, ctx_pending := []\<rparr>, acc @ in_fd, out @ [fst R])"
    unfolding encrypt_loop_last [OF short c] encryptor_update_aligned [OF p len] R_def
    by (simp only: fst_conv snd_conv)
  show ?thesis
    unfolding R_def [symmetric] e by simp
qed

lemma encrypt_loop_result:
  "ctx_pending enc = [] \<Longrightarrow>
   \<exists>out'. encrypt_loop env in_fd enc acc out =
       ([],
        enc\<lparr>ctx_chain := snd (cbc_encrypt_blocks (aes_encrypt env (ctx_key enc))
                (Suc (length in_fd div 16)) (ctx_chain enc) (in_fd @ pkcs_padding (length in_fd))),
            ctx_pending := []\<rparr>,
        acc @ in_fd, out') \<and>
     concat out' = concat out @ fst (cbc_encrypt_blocks (aes_encrypt env (ctx_key enc))
                (Suc (length in_fd div 16)) (ctx_chain enc) (in_fd @ pkcs_padding (length in_fd)))"
proof (induction "length in_fd" arbitrary: in_fd enc acc out rule: less_induct)
  case less
  let ?E = "aes_encrypt env (ctx_key enc)"
  let ?chunk = "take 16384 in_fd"
  show ?case
  proof (cases "length ?chunk = 0 \<or> length ?chunk mod 16 \<noteq> 0")
    case True
    have short: "length in_fd < 16384"
    proof (rule ccontr)
      assume "\<not> length in_fd < 16384"
      then have "length ?chunk = 16384" by simp
      with True show False by simp
    qed
    then have ch: "?chunk = in_fd" by simp
    from True ch have c: "in_fd = [] \<or> length in_fd mod 16 \<noteq> 0" by simp
    show ?thesis
      by (rule encrypt_loop_result_last [OF less.prems short c])
  next
    case False
    define chunk where "chunk = take 16384 in_fd"
    define rest where "rest = drop 16384 in_fd"
    define pad where "pad = pkcs_padding (length in_fd)"
    define k where "k = length chunk div 16"
    from False have nz: "take 16384 in_fd \<noteq> []" and al: "length (take 16384 in_fd) mod 16 = 0"
      by auto
    from al have "length chunk mod 16 = 0" by (simp only: chunk_def)
    then have k: "length chunk = 16 * k"
      unfolding k_def using mult_div_mod_eq [of 16 "length chunk"] by simp
    from nz have ne: "in_fd \<noteq> []" by auto
    have split_in: "chunk @ rest = in_fd" by (simp add: chunk_def rest_def)
    define r where "r = cbc_encrypt_blocks ?E k (ctx_chain enc) chunk"
    define enc' where "enc' = enc\<lparr>ctx_chain := snd r, ctx_pending := []\<rparr>"
    have upd: "encryptor_update env enc chunk = (fst r, enc')"
      unfolding r_def enc'_def by (rule encryptor_update_aligned [OF less.prems k])
    have lt: "length rest < length in_fd" using ne by (simp add: rest_def)
    have pend: "ctx_pending enc' = []" by (simp add: enc'_def)
    have key': "ctx_key enc' = ctx_key enc" by (simp add: enc'_def)
    have chain': "ctx_chain enc' = snd r" by (simp add: enc'_def)
    have lin: "length in_fd = 16 * k + length rest"
      unfolding split_in [symmetric] by (simp only: length_append k)
    have modeq: "length rest mod 16 = length in_fd mod 16" unfolding lin by simp
    have diveq: "Suc (length in_fd div 16) = k + Suc (length rest div 16)" unfolding lin by simp
    have padeq: "pkcs_padding (length rest) = pad"
      unfolding pad_def by (rule pkcs_padding_cong [OF modeq])
    define R2 where "R2 = cbc_encrypt_blocks ?E (Suc (length rest div 16)) (snd r) (rest @ pad)"
    have R2': "cbc_encrypt_blocks (aes_encrypt env (ctx_key enc')) (Suc (length rest div 16))
          (ctx_chain enc') (rest @ pkcs_padding (length rest)) = R2"
      by (simp only: key' chain' padeq R2_def)
    have upd2: "enc'\<lparr>ctx_chain := snd R2, ctx_pending := []\<rparr>
        = enc\<lparr>ctx_chain := snd R2, ctx_pending := []\<rparr>"
      by (simp add: enc'_def)
    from less.hyps [OF lt pend, of "acc @ chunk" "out @ [fst r]"]
    obtain out' where
      eq: "encrypt_loop env rest enc' (acc @ chunk) (out @ [fst r]) =
         ([], enc\<lparr>ctx_chain := snd R2, ctx_pending := []\<rparr>, (acc @ chunk) @ rest, out')"
      and cc: "concat out' = concat (out @ [fst r]) @ fst R2"
      unfolding R2' upd2 by blast
    have whole: "in_fd @ pad = chunk @ (rest @ pad)"
      unfolding split_in [symmetric] by (simp only: append_assoc)
    have tk: "take (16 * k) (in_fd @ pad) = take (16 * k) chunk"
      unfolding whole using k by simp
    have dr: "drop (16 * k) (in_fd @ pad) = rest @ pad"
      unfolding whole using k by simp
    have first: "cbc_encrypt_blocks ?E k (ctx_chain enc) (in_fd @ pad) = r"
      unfolding r_def by (rule cbc_encrypt_blocks_cong [OF tk])
    have total: "cbc_encrypt_blocks ?E (Suc (length in_fd div 16)) (ctx_chain enc) (in_fd @ pad) =
        (fst r @ fst R2, snd R2)"
      unfolding diveq R2_def by (subst cbc_encrypt_blocks_add) (simp only: first dr)
    have step: "encrypt_loop env in_fd enc acc out =
        encrypt_loop env rest enc' (acc @ chunk) (out @ [fst r])"
      using encrypt_loop_step [OF nz al, of env enc acc out]
      by (simp only: chunk_def [symmetric] rest_def [symmetric] upd fst_conv snd_conv)
    have step': "encrypt_loop env in_fd enc acc out =
        ([], enc\<lparr>ctx_chain := snd R2, ctx_pending := []\<rparr>, acc @ in_fd, out')"
      unfolding step eq by (simp only: append_assoc split_in)
    have cc': "concat out' = concat out @ fst r @ fst R2"
      unfolding cc by (simp only: concat_append concat.simps append_Nil2 append_assoc)
    have goal: "encrypt_loop env in_fd enc acc out =
       ([], enc\<lparr>ctx_chain := snd (fst r @ fst R2, snd R2), ctx_pending := []\<rparr>, acc @ in_fd, out') \<and>
       concat out' = concat out @ fst (fst r @ fst R2, snd R2)"
      unfolding fst_conv snd_conv using step' cc' by (rule conjI)
    show ?thesis
      unfolding pad_def [symmetric] total by (rule exI) (rule goal)
  qed
qed

subsection \<open>Key derivation\<close>

lemma length_derive_accum: "length (derive_accum env pw salt n) = 16 * n"
  by (induction n) (simp_all add: length_md5_digest)

lemma gen_key_loop_derive:
  "16 * n < key_size c + 16 + 16 \<Longrightarrow>
   \<exists>m. gen_key_loop env c salt (derive_accum env (password c) salt n)
          (derive_rolling env (password c) salt n) = derive_accum env (password c) salt m \<and>
       key_size c + 16 \<le> 16 * m \<and> n \<le> m \<and>
       (\<forall>j. n \<le> j \<longrightarrow> j < m \<longrightarrow> 16 * j < key_size c + 16)"
proof (induction "key_size c + 32 - 16 * n" arbitrary: n rule: less_induct)
  case less
  show ?case
  proof (cases "16 * n < key_size c + 16")
    case True
    have st: "gen_key_loop env c salt (derive_accum env (password c) salt n)
          (derive_rolling env (password c) salt n) =
        gen_key_loop env c salt (derive_accum env (password c) salt (Suc n))
          (derive_rolling env (password c) salt (Suc n))"
      by (subst gen_key_loop.simps) (simp add: length_derive_accum True Let_def)
    have a: "key_size c + 32 - 16 * Suc n < key_size c + 32 - 16 * n" using True by simp
    have b: "16 * Suc n < key_size c + 16 + 16" using True by simp
    from less.hyps [OF a b] obtain m where
      m: "gen_key_loop env c salt (derive_accum env (password c) salt (Suc n))
          (derive_rolling env (password c) salt (Suc n)) = derive_accum env (password c) salt m"
      "key_size c + 16 \<le> 16 * m" "Suc n \<le> m"
      "\<forall>j. Suc n \<le> j \<longrightarrow> j < m \<longrightarrow> 16 * j < key_size c + 16"
      by blast
    have "\<forall>j. n \<le> j \<longrightarrow> j < m \<longrightarrow> 16 * j < key_size c + 16"
    proof (intro allI impI)
      fix j assume "n \<le> j" "j < m"
      show "16 * j < key_size c + 16"
      proof (cases "j = n")
        case True
        then show ?thesis using \<open>16 * n < key_size c + 16\<close> by simp
      next
        case False
        then have "Suc n \<le> j" using \<open>n \<le> j\<close> by simp
        then show ?thesis using m(4) \<open>j < m\<close> by blast
      qed
    qed
    then show ?thesis using st m(1) m(2) m(3) by (intro exI [of _ m]) simp
  next
    case False
    have "gen_key_loop env c salt (derive_accum env (password c) salt n)
          (derive_rolling env (password c) salt n) = derive_accum env (password c) salt n"
      by (subst gen_key_loop.simps) (simp add: length_derive_accum False)
    then show ?thesis using False by (intro exI [of _ n]) simp
  qed
qed

lemma gen_key_loop_rounds:
  "\<exists>m. gen_key_loop env c salt [] [] = derive_accum env (password c) salt m \<and>
       key_size c + 16 \<le> 16 * m \<and> (\<forall>j<m. 16 * j < key_size c + 16)"
  using gen_key_loop_derive [of 0 c env salt] by auto

lemma length_gen_key_loop: "key_size c + 16 \<le> length (gen_key_loop env c salt [] [])"
proof -
  from gen_key_loop_rounds [of env c salt] obtain m where
    "gen_key_loop env c salt [] [] = derive_accum env (password c) salt m" "key_size c + 16 \<le> 16 * m"
    by blast
  then show ?thesis by (simp add: length_derive_accum)
qed

lemma length_gen_key: "length (fst (gen_key_and_iv env c salt)) = key_size c"
  using length_gen_key_loop [of c env salt] by (simp add: gen_key_and_iv_def Let_def)

lemma length_gen_iv: "length (snd (gen_key_and_iv env c salt)) = 16"
  using length_gen_key_loop [of c env salt] by (simp add: gen_key_and_iv_def Let_def)

lemma find_first_upt:
  "P m \<Longrightarrow> (\<forall>j<m. \<not> P j) \<Longrightarrow> m < k \<Longrightarrow> find P [0..<k] = Some m"
proof -
  assume a: "P m" "\<forall>j<m. \<not> P j" "m < k"
  have "\<exists>i<length [0..<k]. P ([0..<k] ! i) \<and> m = [0..<k] ! i \<and> (\<forall>j<i. \<not> P ([0..<k] ! j))"
    using a by (intro exI [of _ m]) auto
  then show ?thesis by (simp only: find_Some_iff)
qed

text \<open>
  Claim C3. \<open>gen_key_and_iv\<close> is the iterative hashing of the specification: starting from
  an empty accumulator and an empty rolling digest, each round hashes the rolling digest
  followed by the password and the salt and appends the 16-byte result, and the rounds stop
  at the first accumulator of at least \<open>key_size + block_size\<close> bytes; the key is its first
  \<open>key_size\<close> bytes and the IV the next \<open>block_size\<close> bytes. The loop always returns, and
  the result depends on the password, the key size and the salt only.
\<close>

theorem gen_key_and_iv_derive:
  "derive env (password c) salt (key_size c) = Some (gen_key_and_iv env c salt) \<and>
   length (fst (gen_key_and_iv env c salt)) = key_size c \<and>
   length (snd (gen_key_and_iv env c salt)) = block_size"
proof -
  from gen_key_loop_rounds [of env c salt] obtain m where
    m: "gen_key_loop env c salt [] [] = derive_accum env (password c) salt m"
    "key_size c + 16 \<le> 16 * m" "\<forall>j<m. 16 * j < key_size c + 16"
    by blast
  let ?P = "\<lambda>n. key_size c + block_size \<le> length (derive_accum env (password c) salt n)"
  have p: "?P m" using m(2) by (simp add: length_derive_accum)
  have q: "\<forall>j<m. \<not> ?P j" using m(3) by (auto simp: length_derive_accum not_le)
  have mk: "m < Suc (key_size c + block_size)"
  proof (rule ccontr)
    assume "\<not> m < Suc (key_size c + block_size)"
    then have "key_size c + 16 < m" by simp
    then have "16 * (key_size c + 16) < key_size c + 16" using m(3) by blast
    then show False by simp
  qed
  have f: "find ?P [0..<Suc (key_size c + block_size)] = Some m"
    by (rule find_first_upt [OF p q mk])
  have "derive env (password c) salt (key_size c) = Some (gen_key_and_iv env c salt)"
    unfolding derive_def f gen_key_and_iv_def m(1) Let_def by simp
  then show ?thesis by (simp add: length_gen_key length_gen_iv)
qed

subsection \<open>The loop of \<open>decrypt_fd\<close>\<close>

lemma blocks_between: "(n + m - 16 * (n div 16)) div 16 = (n + m) div 16 - (n::nat) div 16"
  by linarith

lemma decryptor_update_explicit:
  "decryptor_update env (ctx\<lparr>ctx_chain := ch, ctx_pending := pend\<rparr>) data =
     (fst (cbc_decrypt_blocks (aes_decrypt env (ctx_key ctx)) (length (pend @ data) div 16) ch
             (pend @ data)),
      ctx\<lparr>ctx_chain := snd (cbc_decrypt_blocks (aes_decrypt env (ctx_key ctx))
                             (length (pend @ data) div 16) ch (pend @ data)),
          ctx_pending := drop (16 * (length (pend @ data) div 16)) (pend @ data)\<rparr>)"
  by (simp add: decryptor_update_def Let_def)

lemma blocks_le: "16 * (n div 16) \<le> (n::nat)"
  by linarith

lemma blocks_mono: "n \<le> m \<Longrightarrow> n div 16 \<le> (m::nat) div 16"
  by (rule div_le_mono)

lemma length_cbc_plain: "length (cbc_plain env ctx s) = 16 * (length s div 16)"
  by (simp add: cbc_plain_def length_cbc_decrypt_blocks)

lemma cbc_decrypt_blocks_prefix:
  assumes "b \<le> length s div 16"
  shows "fst (cbc_decrypt_blocks (aes_decrypt env (ctx_key ctx)) b (ctx_chain ctx) s)
           = take (16 * b) (cbc_plain env ctx s)"
proof -
  let ?D = "aes_decrypt env (ctx_key ctx)"
  obtain d where d: "length s div 16 = b + d" using assms by (metis le_Suc_ex)
  have "fst (cbc_decrypt_blocks ?D (b + d) (ctx_chain ctx) s) =
      fst (cbc_decrypt_blocks ?D b (ctx_chain ctx) s) @
      fst (cbc_decrypt_blocks ?D d (snd (cbc_decrypt_blocks ?D b (ctx_chain ctx) s)) (drop (16 * b) s))"
    by (subst cbc_decrypt_blocks_add) simp
  then show ?thesis
    by (simp add: cbc_plain_def d length_cbc_decrypt_blocks)
qed

lemma cbc_decrypt_blocks_from:
  assumes "a + k \<le> length s div 16"
  shows "cbc_decrypt_blocks (aes_decrypt env (ctx_key ctx)) k
           (snd (cbc_decrypt_blocks (aes_decrypt env (ctx_key ctx)) a (ctx_chain ctx) s))
           (drop (16 * a) s)
        = (drop (16 * a) (take (16 * (a + k)) (cbc_plain env ctx s)),
           snd (cbc_decrypt_blocks (aes_decrypt env (ctx_key ctx)) (a + k) (ctx_chain ctx) s))"
proof -
  let ?D = "aes_decrypt env (ctx_key ctx)"
  let ?A = "cbc_decrypt_blocks ?D a (ctx_chain ctx) s"
  let ?K = "cbc_decrypt_blocks ?D k (snd ?A) (drop (16 * a) s)"
  have add: "cbc_decrypt_blocks ?D (a + k) (ctx_chain ctx) s = (fst ?A @ fst ?K, snd ?K)"
    by (rule cbc_decrypt_blocks_add)
  have la: "length (fst ?A) = 16 * a" by (rule length_cbc_decrypt_blocks)
  have "take (16 * (a + k)) (cbc_plain env ctx s) = fst ?A @ fst ?K"
    using cbc_decrypt_blocks_prefix [OF assms, of env ctx] add by simp
  then have "drop (16 * a) (take (16 * (a + k)) (cbc_plain env ctx s)) = fst ?K"
    using la by simp
  then show ?thesis using add by (simp add: prod_eq_iff)
qed

lemma decryptor_update_after:
  assumes p: "ctx_pending ctx = []" and le: "n + m \<le> length s"
  shows "decryptor_update env (dec_after env ctx s n) (take m (drop n s)) =
           (drop (16 * (n div 16)) (take (16 * ((n + m) div 16)) (cbc_plain env ctx s)),
            dec_after env ctx s (n + m))"
proof -
  let ?D = "aes_decrypt env (ctx_key ctx)"
  define a where "a = n div 16"
  define b where "b = (n + m) div 16"
  define buf where "buf = drop (16 * a) (take n s) @ take m (drop n s)"
  have a_le: "16 * a \<le> n" unfolding a_def by (rule blocks_le)
  have ab: "a \<le> b" unfolding a_def b_def by (rule blocks_mono) simp
  have b_le: "16 * b \<le> n + m" unfolding b_def by (rule blocks_le)
  have bN: "b \<le> length s div 16" unfolding b_def by (rule blocks_mono [OF le])
  have n_le: "n \<le> length s" using le by simp
  have buf_eq: "buf = drop (16 * a) (take (n + m) s)"
    unfolding buf_def using a_le n_le by (simp add: take_add)
  have buf_eq2: "buf = take (n + m - 16 * a) (drop (16 * a) s)"
    unfolding buf_eq by (simp add: drop_take)
  have len: "length buf = n + m - 16 * a"
    unfolding buf_eq using le by simp
  have k: "length buf div 16 = b - a"
    unfolding len a_def b_def by (rule blocks_between)
  have kk: "16 * (b - a) \<le> n + m - 16 * a" using b_le ab by simp
  have tk: "take (16 * (b - a)) buf = take (16 * (b - a)) (drop (16 * a) s)"
    unfolding buf_eq2 using kk by (simp add: min_def)
  have abk: "a + (b - a) = b" using ab by simp
  have cong: "cbc_decrypt_blocks ?D (b - a) (snd (cbc_decrypt_blocks ?D a (ctx_chain ctx) s)) buf
      = (drop (16 * a) (take (16 * b) (cbc_plain env ctx s)),
           snd (cbc_decrypt_blocks ?D b (ctx_chain ctx) s))"
    using cbc_decrypt_blocks_from [of a "b - a" s env ctx] bN
    unfolding abk cbc_decrypt_blocks_cong [OF tk] by simp
  have pend: "drop (16 * (b - a)) buf = drop (16 * b) (take (n + m) s)"
    unfolding buf_eq using ab by (simp add: algebra_simps)
  have upd: "decryptor_update env (dec_after env ctx s n) (take m (drop n s)) =
      (fst (cbc_decrypt_blocks ?D (b - a) (snd (cbc_decrypt_blocks ?D a (ctx_chain ctx) s)) buf),
       ctx\<lparr>ctx_chain := snd (cbc_decrypt_blocks ?D (b - a)
                (snd (cbc_decrypt_blocks ?D a (ctx_chain ctx) s)) buf),
           ctx_pending := drop (16 * (b - a)) buf\<rparr>)"
    unfolding dec_after_def a_def [symmetric] decryptor_update_explicit buf_def [symmetric] k
    by (rule refl)
  show ?thesis
    unfolding upd cong pend
    unfolding dec_after_def a_def [symmetric] b_def [symmetric]
    by simp
qed

lemma decrypt_loop_empty:
  "decrypt_loop env pn [] in_fd dec X Y =
     decrypt_loop env pn (take 16384 in_fd) (drop 16384 in_fd) dec X Y"
  by (subst decrypt_loop.simps) (simp add: Let_def fd_read_def)

lemma decrypt_loop_more:
  "chunk \<noteq> [] \<Longrightarrow> in_fd \<noteq> [] \<Longrightarrow>
   decrypt_loop env pn chunk in_fd dec X Y =
     decrypt_loop env pn (take 16384 in_fd) (drop 16384 in_fd)
       (snd (decryptor_update env dec chunk))
       (X @ fst (decryptor_update env dec chunk)) (Y @ fst (decryptor_update env dec chunk))"
  by (subst decrypt_loop.simps) (simp add: Let_def fd_read_def min_def)

lemma decrypt_loop_final:
  "chunk \<noteq> [] \<Longrightarrow>
   decrypt_loop env pn chunk [] dec X Y =
     (case cipher_finalize (snd (decryptor_update env dec chunk)) of
        Inl e \<Rightarrow> Some (Inl e, [])
      | Inr fin \<Rightarrow> Some (decrypt_last_chunk pn (fst (decryptor_update env dec chunk) @ fin)
                         X Y []))"
  by (subst decrypt_loop.simps) (simp add: Let_def fd_read_def)

lemma drop_take_join:
  "\<alpha> \<le> \<beta> \<Longrightarrow> \<beta> \<le> \<gamma> \<Longrightarrow> drop \<alpha> (take \<beta> P) @ drop \<beta> (take \<gamma> P) = drop \<alpha> (take \<gamma> P)"
proof -
  assume a: "\<alpha> \<le> \<beta>" and b: "\<beta> \<le> \<gamma>"
  have "take \<gamma> P = take \<beta> P @ drop \<beta> (take \<gamma> P)"
    using b by (metis append_take_drop_id min.absorb1 take_take)
  then have "drop \<alpha> (take \<gamma> P) = drop \<alpha> (take \<beta> P @ drop \<beta> (take \<gamma> P))" by simp
  also have "\<dots> = drop \<alpha> (take \<beta> P) @ drop (\<alpha> - length (take \<beta> P)) (drop \<beta> (take \<gamma> P))"
    by (rule drop_append)
  also have "drop (\<alpha> - length (take \<beta> P)) (drop \<beta> (take \<gamma> P)) = drop \<beta> (take \<gamma> P)"
  proof (cases "\<beta> \<le> length P")
    case True
    then have "\<alpha> - length (take \<beta> P) = 0" using a by simp
    then show ?thesis by simp
  next
    case False
    then have "drop \<beta> (take \<gamma> P) = []" by simp
    then show ?thesis by simp
  qed
  finally show ?thesis by simp
qed

lemma decrypt_loop_stream:
  assumes p: "ctx_pending ctx = []"
  shows "a < length s \<Longrightarrow> (length s - a - 1) div 16384 = j \<Longrightarrow>
    decrypt_loop env pn (take 16384 (drop a s)) (drop (a + 16384) s) (dec_after env ctx s a) X Y =
      Some (if length s mod 16 \<noteq> 0 then (Inl ValueError, [])
            else decrypt_last_chunk pn
                   (drop (16 * ((a + 16384 * j) div 16)) (cbc_plain env ctx s))
                   (X @ drop (16 * (a div 16)) (take (16 * ((a + 16384 * j) div 16)) (cbc_plain env ctx s)))
                   (Y @ drop (16 * (a div 16)) (take (16 * ((a + 16384 * j) div 16)) (cbc_plain env ctx s)))
                   [])"
proof (induction j arbitrary: a X Y)
  case 0
  define P where "P = cbc_plain env ctx s"
  define m where "m = length s - a"
  from 0 have le: "length s \<le> a + 16384" by linarith
  have am: "a + m = length s" using 0 by (simp add: m_def)
  have chunk: "take 16384 (drop a s) = take m (drop a s)"
    using le by (simp add: m_def)
  have ne: "take m (drop a s) \<noteq> []" using 0 by (simp add: m_def)
  have nx: "drop (a + 16384) s = []" using le by simp
  have lenP: "length P = 16 * (length s div 16)" unfolding P_def by (rule length_cbc_plain)
  have upd: "decryptor_update env (dec_after env ctx s a) (take m (drop a s)) =
      (drop (16 * (a div 16)) P, dec_after env ctx s (length s))"
    using decryptor_update_after [OF p, of a m s env] am lenP
    by (simp add: P_def [symmetric])
  have pend: "ctx_pending (dec_after env ctx s (length s)) = [] \<longleftrightarrow> length s mod 16 = 0"
  proof -
    have "16 * (length s div 16) + length s mod 16 = length s" by simp
    then have "length s \<le> 16 * (length s div 16) \<longleftrightarrow> length s mod 16 = 0" by linarith
    then show ?thesis by (simp add: dec_after_def)
  qed
  have fin: "cipher_finalize (dec_after env ctx s (length s)) =
      (if length s mod 16 = 0 then Inr [] else Inl ValueError)"
    by (simp add: cipher_finalize_def pend)
  have e: "drop (16 * (a div 16)) (take (16 * (a div 16)) P) = []" by simp
  show ?case
    unfolding chunk nx decrypt_loop_final [OF ne] upd fst_conv snd_conv fin
    unfolding P_def [symmetric]
    by (simp add: e)
next
  case (Suc j)
  define P where "P = cbc_plain env ctx s"
  define A where "A = a + 16384 * Suc j"
  from Suc.prems have lt: "a + 16384 < length s" by linarith
  from Suc.prems have j': "(length s - (a + 16384) - 1) div 16384 = j" by linarith
  have le: "a + 16384 \<le> length s" using lt by simp
  have ne: "take 16384 (drop a s) \<noteq> []" using lt by simp
  have nx: "drop (a + 16384) s \<noteq> []" using lt by simp
  have dd: "drop 16384 (drop (a + 16384) s) = drop (a + 16384 + 16384) s"
    by (simp add: add.commute)
  have upd: "decryptor_update env (dec_after env ctx s a) (take 16384 (drop a s)) =
      (drop (16 * (a div 16)) (take (16 * ((a + 16384) div 16)) P), dec_after env ctx s (a + 16384))"
    unfolding P_def by (rule decryptor_update_after [OF p le])
  have AA: "a + 16384 + 16384 * j = A" by (simp add: A_def)
  have o1: "16 * (a div 16) \<le> 16 * ((a + 16384) div 16)" by simp
  have o2: "16 * ((a + 16384) div 16) \<le> 16 * (A div 16)"
    unfolding A_def by (simp add: div_le_mono)
  have join: "drop (16 * (a div 16)) (take (16 * ((a + 16384) div 16)) P) @
        drop (16 * ((a + 16384) div 16)) (take (16 * (A div 16)) P) =
        drop (16 * (a div 16)) (take (16 * (A div 16)) P)"
    by (rule drop_take_join [OF o1 o2])
  note ih = Suc.IH [OF lt j',
      of "X @ drop (16 * (a div 16)) (take (16 * ((a + 16384) div 16)) P)"
         "Y @ drop (16 * (a div 16)) (take (16 * ((a + 16384) div 16)) P)"]
  show ?case
    unfolding decrypt_loop_more [OF ne nx] upd fst_conv snd_conv dd
    unfolding ih AA P_def [symmetric] A_def [symmetric] append_assoc join
    by (rule refl)
qed

lemma decrypt_loop_never_returns_on_empty:
  "decrypt_loop env pn ch inp dec X Y = Some y \<Longrightarrow> \<not> (ch = [] \<and> inp = [])"
proof (induction rule: decrypt_loop.raw_induct [rotated 1, consumes 1])
  case (1 decrypt_loop env pathname next_chunk in_fd decryptor str_io md5acc y)
  show ?case
  proof
    assume e: "next_chunk = [] \<and> in_fd = []"
    with 1(2) have "decrypt_loop env pathname [] [] decryptor str_io md5acc = Some y"
      by (simp add: Let_def fd_read_def)
    from 1(1) [OF this] show False by simp
  qed
qed

lemma decrypt_loop_diverges: "decrypt_loop env pn [] [] dec X Y = None"
proof (cases "decrypt_loop env pn [] [] dec X Y")
  case None
  then show ?thesis .
next
  case (Some y)
  from decrypt_loop_never_returns_on_empty [OF this] show ?thesis by simp
qed

subsection \<open>The header of \<open>decrypt_fd\<close>\<close>

lemma new_cipher_gen_key:
  "key_size_ok c \<Longrightarrow>
   new_cipher (fst (gen_key_and_iv env c salt)) (snd (gen_key_and_iv env c salt)) =
     Inr (initial_ctx env c salt)"
  by (auto simp add: new_cipher_def key_size_ok_def length_gen_key length_gen_iv initial_ctx_def)

lemma pathname_block_size_eq:
  "pathname_block_size ps = (if ps mod 16 \<noteq> 0 then ps + 16 else ps)"
proof -
  have "(real ps / 16 + 1) * 16 = real (ps + 16)" by simp
  then have "\<lfloor>(real ps / real 16 + 1) * real 16\<rfloor> = int (ps + 16)"
    by (simp only: of_nat_numeral floor_of_nat)
  then have "nat \<lfloor>(real ps / real 16 + 1) * real 16\<rfloor> = ps + 16"
    by (simp only: nat_int)
  then show ?thesis by (simp only: pathname_block_size_def)
qed

lemma pending_initial_ctx: "ctx_pending (initial_ctx env c salt) = []"
  by (simp add: initial_ctx_def)

lemma dec_after_0: "ctx_pending ctx = [] \<Longrightarrow> dec_after env ctx s 0 = ctx"
  by (simp add: dec_after_def)

lemma decrypt_header_short:
  "length in_fd < 16 \<Longrightarrow> decrypt_header env c in_fd = Inl (UnrecognizedContent, [])"
  by (simp add: decrypt_header_def Let_def fd_read_def)

lemma decrypt_header_version:
  "16 \<le> length in_fd \<Longrightarrow> VERSION < unat (in_fd ! 0) \<Longrightarrow>
   decrypt_header env c in_fd = Inl (VersionNotCompatible, drop 16 in_fd)"
  by (simp add: decrypt_header_def Let_def fd_read_def)

lemma decrypt_header_unfold:
  assumes len: "16 \<le> length in_fd" and ver: "unat (in_fd ! 0) \<le> VERSION"
    and key: "key_size_ok c"
  shows "decrypt_header env c in_fd =
     (if length (drop 16 in_fd) < pathname_block_size (header_pathname_size in_fd)
      then Inl (UnrecognizedContent,
                drop (pathname_block_size (header_pathname_size in_fd)) (drop 16 in_fd))
      else Inr (uint (in_fd ! 1), header_salt in_fd,
                take (header_pathname_size in_fd)
                  (fst (decryptor_update env (initial_ctx env c (header_salt in_fd))
                     (take (pathname_block_size (header_pathname_size in_fd)) (drop 16 in_fd)))),
                snd (decryptor_update env (initial_ctx env c (header_salt in_fd))
                     (take (pathname_block_size (header_pathname_size in_fd)) (drop 16 in_fd))),
                drop (pathname_block_size (header_pathname_size in_fd)) (drop 16 in_fd)))"
proof -
  define line where "line = take 16 in_fd"
  define s where "s = drop 16 in_fd"
  define pbs where "pbs = pathname_block_size (nat (unpack_unsigned (take 2 (drop 2 line))))"
  have ll: "length line = 16" using len by (simp add: line_def)
  have v: "\<not> Suc 0 < unat (line ! 0)" using ver len by (simp add: line_def)
  have i1: "line ! Suc 0 = in_fd ! Suc 0" using len by (simp add: line_def)
  have nc: "new_cipher (fst (gen_key_and_iv env c (drop 4 line)))
       (snd (gen_key_and_iv env c (drop 4 line))) = Inr (initial_ctx env c (drop 4 line))"
    by (rule new_cipher_gen_key [OF key])
  have sh: "length (take pbs s) < pbs \<longleftrightarrow> length s < pbs" by (simp add: min_def)
  have "decrypt_header env c in_fd =
     (if length s < pbs then Inl (UnrecognizedContent, drop pbs s)
      else Inr (uint (in_fd ! 1), drop 4 line,
                take (nat (unpack_unsigned (take 2 (drop 2 line))))
                  (fst (decryptor_update env (initial_ctx env c (drop 4 line)) (take pbs s))),
                snd (decryptor_update env (initial_ctx env c (drop 4 line)) (take pbs s)),
                drop pbs s))"
    unfolding decrypt_header_def Let_def fd_read_def fst_conv snd_conv
      line_def [symmetric] s_def [symmetric] pbs_def [symmetric]
    using v by (simp add: ll nc sh i1)
  then show ?thesis
    unfolding header_pathname_size_def header_salt_def
      line_def [symmetric] s_def [symmetric] pbs_def [symmetric] .
qed

lemma decrypt_header_truncated:
  "16 \<le> length in_fd \<Longrightarrow> unat (in_fd ! 0) \<le> VERSION \<Longrightarrow> key_size_ok c \<Longrightarrow>
   length in_fd - 16 < pathname_block_size (header_pathname_size in_fd) \<Longrightarrow>
   decrypt_header env c in_fd = Inl (UnrecognizedContent, [])"
  by (simp add: decrypt_header_unfold)

lemma decrypt_header_ok:
  assumes len: "16 \<le> length in_fd" and ver: "unat (in_fd ! 0) \<le> VERSION"
    and key: "key_size_ok c"
    and pn: "pathname_block_size (header_pathname_size in_fd) \<le> length in_fd - 16"
  shows "decrypt_header env c in_fd =
     Inr (uint (in_fd ! 1), header_salt in_fd,
          take (header_pathname_size in_fd)
            (take (16 * (pathname_block_size (header_pathname_size in_fd) div 16))
               (cbc_plain env (initial_ctx env c (header_salt in_fd)) (drop 16 in_fd))),
          dec_after env (initial_ctx env c (header_salt in_fd)) (drop 16 in_fd)
            (pathname_block_size (header_pathname_size in_fd)),
          drop (pathname_block_size (header_pathname_size in_fd)) (drop 16 in_fd))"
proof -
  define s where "s = drop 16 in_fd"
  define pbs where "pbs = pathname_block_size (header_pathname_size in_fd)"
  define ctx where "ctx = initial_ctx env c (header_salt in_fd)"
  have p: "ctx_pending ctx = []" by (simp add: ctx_def pending_initial_ctx)
  have le: "0 + pbs \<le> length s" using pn by (simp add: s_def pbs_def)
  have upd: "decryptor_update env ctx (take pbs s) =
      (take (16 * (pbs div 16)) (cbc_plain env ctx s), dec_after env ctx s pbs)"
    using decryptor_update_after [OF p le, of env] by (simp add: dec_after_0 [OF p])
  have short: "\<not> length s < pbs" using le by simp
  show ?thesis
    unfolding decrypt_header_unfold [OF len ver key]
    unfolding pbs_def [symmetric] s_def [symmetric] ctx_def [symmetric] upd fst_conv snd_conv
    using short by simp
qed

lemma decrypt_loop_errors:
  "decrypt_loop env pn ch inp dec X Y = Some y \<Longrightarrow>
   \<forall>e r. y = (Inl e, r) \<longrightarrow> e = ValueError \<or> e = StructError \<or> e = IndexError"
proof (induction rule: decrypt_loop.raw_induct [rotated 1, consumes 1])
  case (1 decrypt_loop env pathname next_chunk in_fd decryptor str_io md5acc y)
  from 1(2) show ?case
    by (auto simp: Let_def cipher_finalize_def decrypt_last_chunk_def unpack_footer_def
          byte0_def dest: 1(1)
          split: if_splits sum.splits list.splits)
qed

lemma env_ok_toy: "env_ok toy_env"
  by (simp add: env_ok_def toy_env_def)

lemma key_size_ok_toy: "key_size_ok toy_crypto"
  by (simp add: key_size_ok_def toy_crypto_def)

lemma decrypt_fd_header_error:
  "decrypt_header env c in_fd = Inl (e, r) \<Longrightarrow> decrypt_fd env c in_fd = Some (Inl e, r, [])"
  by (simp add: decrypt_fd_def)

text \<open>
  Claim C8. On an input whose header is complete and whose version byte (byte 0) exceeds
  \<open>VERSION\<close>, \<open>decrypt_fd\<close> raises \<open>VersionNotCompatible\<close> having read the 16 header bytes
  and nothing else, and having written nothing. When the version byte is at most
  \<open>VERSION\<close>, \<open>decrypt_fd\<close> goes on: whatever it does next, it does not raise
  \<open>VersionNotCompatible\<close>.
\<close>

theorem decrypt_fd_version_gate:
  assumes "block_size \<le> length in_fd"
  shows "(VERSION < unat (in_fd ! 0) \<longrightarrow>
           decrypt_fd env c in_fd = Some (Inl VersionNotCompatible, drop block_size in_fd, [])) \<and>
         (unat (in_fd ! 0) \<le> VERSION \<longrightarrow>
           (\<forall>r w. decrypt_fd env c in_fd \<noteq> Some (Inl VersionNotCompatible, r, w)))"
proof (intro conjI impI allI)
  assume "VERSION < unat (in_fd ! 0)"
  then show "decrypt_fd env c in_fd = Some (Inl VersionNotCompatible, drop block_size in_fd, [])"
    using assms by (intro decrypt_fd_header_error decrypt_header_version)
next
  fix r w
  assume v: "unat (in_fd ! 0) \<le> VERSION"
  have l: "\<not> length (take 16 in_fd) < 16" using assms by simp
  have v': "\<not> Suc 0 < unat (take 2 (take 16 in_fd) ! 0)" using v assms by simp
  have h: "\<And>e r. decrypt_header env c in_fd = Inl (e, r) \<Longrightarrow> e \<noteq> VersionNotCompatible"
    using l v'
    by (auto simp: decrypt_header_def Let_def fd_read_def new_cipher_def
          split: if_splits sum.splits)
  show "decrypt_fd env c in_fd \<noteq> Some (Inl VersionNotCompatible, r, w)"
  proof
    assume a: "decrypt_fd env c in_fd = Some (Inl VersionNotCompatible, r, w)"
    show False
    proof (cases "decrypt_header env c in_fd")
      case (Inl x)
      then obtain e r' where x: "decrypt_header env c in_fd = Inl (e, r')" by (cases x) auto
      from decrypt_fd_header_error [OF x] a h [OF x] show False by simp
    next
      case (Inr x)
      then obtain flags salt pn dec in2 where
        x: "decrypt_header env c in_fd = Inr (flags, salt, pn, dec, in2)"
        by (cases x) auto
      show False
      proof (cases "decrypt_loop env pn [] in2 dec [] []")
        case None
        with a x show False by (simp add: decrypt_fd_def)
      next
        case (Some y)
        from decrypt_loop_errors [OF Some] a x Some show False
          by (auto simp: decrypt_fd_def decrypt_verify_def Let_def
                split: sum.splits prod.splits if_splits option.splits)
      qed
    qed
  qed
qed

theorem decrypt_fd_version_gate_witness:
  "decrypt_fd toy_env toy_crypto (replicate 16 2) = Some (Inl VersionNotCompatible, [], []) \<and>
   decrypt_fd toy_env toy_crypto (replicate 16 1) \<noteq> Some (Inl VersionNotCompatible, [], [])"
proof -
  have a: "block_size \<le> length (replicate 16 (2::byte))" by simp
  have b: "block_size \<le> length (replicate 16 (1::byte))" by simp
  show ?thesis
    using decrypt_fd_version_gate [OF a, of toy_env toy_crypto]
      decrypt_fd_version_gate [OF b, of toy_env toy_crypto]
    by simp
qed

text \<open>
  Claim C9. An input of fewer than \<open>block_size\<close> bytes makes \<open>decrypt_fd\<close> raise
  \<open>UnrecognizedContent\<close>; so does an input that passes the version gate and holds, after
  the header, fewer bytes than the pathname block length that \<open>decrypt_fd\<close> computes from
  the header (the engine's key size being one AES accepts). In both cases the call
  returns, with nothing written.
\<close>

theorem decrypt_fd_truncated:
  "(length in_fd < block_size \<longrightarrow>
      decrypt_fd env c in_fd = Some (Inl UnrecognizedContent, [], [])) \<and>
   (block_size \<le> length in_fd \<and> unat (in_fd ! 0) \<le> VERSION \<and> key_size_ok c \<and>
    length in_fd - block_size < pathname_block_size (header_pathname_size in_fd) \<longrightarrow>
      decrypt_fd env c in_fd = Some (Inl UnrecognizedContent, [], []))"
proof (intro conjI impI)
  assume "length in_fd < block_size"
  then show "decrypt_fd env c in_fd = Some (Inl UnrecognizedContent, [], [])"
    by (intro decrypt_fd_header_error decrypt_header_short)
next
  assume a: "block_size \<le> length in_fd \<and> unat (in_fd ! 0) \<le> VERSION \<and> key_size_ok c \<and>
    length in_fd - block_size < pathname_block_size (header_pathname_size in_fd)"
  show "decrypt_fd env c in_fd = Some (Inl UnrecognizedContent, [], [])"
    using a by (intro decrypt_fd_header_error decrypt_header_truncated) simp_all
qed

theorem decrypt_fd_truncated_witness:
  "decrypt_fd toy_env toy_crypto [1, 0, 0] = Some (Inl UnrecognizedContent, [], []) \<and>
   decrypt_fd toy_env toy_crypto ([1, 0, 0, 5] @ replicate 12 0 @ replicate 20 7) =
     Some (Inl UnrecognizedContent, [], [])"
proof -
  let ?x = "[1, 0, 0, 5] @ replicate 12 0 @ replicate 20 (7::byte)"
  have h: "block_size \<le> length ?x \<and> unat (?x ! 0) \<le> VERSION \<and> key_size_ok toy_crypto \<and>
      length ?x - block_size < pathname_block_size (header_pathname_size ?x)"
    by (simp add: header_pathname_size_def unpack_unsigned_def be_nat_def
          pathname_block_size_eq key_size_ok_toy)
  have s: "length [1, 0, 0 :: byte] < block_size" by simp
  from decrypt_fd_truncated [of "[1, 0, 0]" toy_env toy_crypto] s
  have a: "decrypt_fd toy_env toy_crypto [1, 0, 0] = Some (Inl UnrecognizedContent, [], [])"
    by blast
  from decrypt_fd_truncated [of ?x toy_env toy_crypto] h
  have b: "decrypt_fd toy_env toy_crypto ?x = Some (Inl UnrecognizedContent, [], [])"
    by blast
  from a b show ?thesis by (rule conjI)
qed

text \<open>
  Claim C10. On an input that passes the version gate and ends exactly after the pathname
  region that \<open>decrypt_fd\<close> reads, the lookahead loop never sets \<open>finished\<close>: every read
  returns the empty string, and \<open>decrypt_fd\<close> does not return.
\<close>

theorem decrypt_fd_hangs:
  assumes "block_size \<le> length in_fd" and "unat (in_fd ! 0) \<le> VERSION" and "key_size_ok c"
    and "length in_fd - block_size = pathname_block_size (header_pathname_size in_fd)"
  shows "decrypt_fd env c in_fd = None"
proof -
  have pn: "pathname_block_size (header_pathname_size in_fd) \<le> length in_fd - 16"
    using assms(4) by simp
  have e: "drop (pathname_block_size (header_pathname_size in_fd)) (drop 16 in_fd) = []"
    using assms(4) by simp
  show ?thesis
    unfolding decrypt_fd_def decrypt_header_ok [OF assms(1) assms(2) assms(3) pn] e
    by (simp add: decrypt_loop_diverges)
qed

theorem decrypt_fd_hangs_witness:
  "decrypt_fd toy_env toy_crypto ([1, 0, 0, 0] @ replicate 12 0) = None \<and>
   decrypt_fd toy_env toy_crypto ([1, 0, 0, 5] @ replicate 12 0 @ replicate 21 7) = None"
proof -
  let ?x = "[1, 0, 0, 0] @ replicate 12 (0::byte)"
  let ?y = "[1, 0, 0, 5] @ replicate 12 0 @ replicate 21 (7::byte)"
  have x1: "block_size \<le> length ?x" and x2: "unat (?x ! 0) \<le> VERSION"
    and x3: "length ?x - block_size = pathname_block_size (header_pathname_size ?x)"
    by (simp_all add: header_pathname_size_def unpack_unsigned_def be_nat_def
          pathname_block_size_eq)
  have y1: "block_size \<le> length ?y" and y2: "unat (?y ! 0) \<le> VERSION"
    and y3: "length ?y - block_size = pathname_block_size (header_pathname_size ?y)"
    by (simp_all add: header_pathname_size_def unpack_unsigned_def be_nat_def
          pathname_block_size_eq)
  have a: "decrypt_fd toy_env toy_crypto ?x = None"
    by (rule decrypt_fd_hangs [OF x1 x2 key_size_ok_toy x3])
  have b: "decrypt_fd toy_env toy_crypto ?y = None"
    by (rule decrypt_fd_hangs [OF y1 y2 key_size_ok_toy y3])
  from a b show ?thesis by (rule conjI)
qed

subsection \<open>The footer\<close>

lemma length_footer_bytes: "length (footer_bytes dg fe) = length dg + 20"
  by (simp add: footer_bytes_def length_be_bytes)

lemma build_footer_ok:
  "footer_fields_ok fe \<Longrightarrow> fe_digest fe = Some dg \<Longrightarrow>
   build_footer fe = Inr (footer_bytes dg fe @ replicate 12 0)"
  by (simp add: footer_fields_ok_def build_footer_def pack_unsigned_def pack_int32_def
        footer_bytes_def)

lemma unpack_unsigned_be_bytes:
  "0 \<le> v \<Longrightarrow> v < 256 ^ n \<Longrightarrow> unpack_unsigned (be_bytes n (nat v)) = v"
proof -
  assume a: "0 \<le> v" "v < 256 ^ n"
  then have "nat v < 256 ^ n" by (simp add: nat_less_iff)
  then show ?thesis using a by (simp add: unpack_unsigned_def be_nat_be_bytes)
qed

lemma unpack_int32_be_bytes:
  assumes "- (2 ^ 31) \<le> v" "v < 2 ^ 31"
  shows "unpack_int32 (be_bytes 4 (nat (v mod 2 ^ 32))) = v"
proof -
  define w where "w = v mod 2 ^ 32"
  have r: "0 \<le> w" "w < 2 ^ 32" by (simp_all add: w_def)
  then have "nat w < 256 ^ 4" by (simp add: nat_less_iff)
  then have "be_nat (be_bytes 4 (nat w)) = nat w" by (simp add: be_nat_be_bytes)
  then have u: "int (be_nat (be_bytes 4 (nat w))) = w" using r by simp
  have un: "unpack_int32 (be_bytes 4 (nat w)) = (if 2 ^ 31 \<le> w then w - 2 ^ 32 else w)"
    unfolding unpack_int32_def Let_def u by (rule refl)
  have "(if 2 ^ 31 \<le> w then w - 2 ^ 32 else w) = v"
  proof (cases "0 \<le> v")
    case True
    then have "w = v" unfolding w_def using assms by simp
    then show ?thesis using assms by simp
  next
    case False
    then have "0 \<le> v + 2 ^ 32" "v + 2 ^ 32 < 2 ^ 32" using assms by simp_all
    then have "(v + 2 ^ 32) mod 2 ^ 32 = v + 2 ^ 32" by (rule mod_pos_pos_trivial)
    then have "w = v + 2 ^ 32" unfolding w_def by simp
    then show ?thesis using assms False by simp
  qed
  then show ?thesis unfolding w_def [symmetric] un .
qed

lemma unpack_footer_ok:
  assumes f: "footer_fields_ok fe" and d: "length dg = 16"
  shows "unpack_footer pathname (footer_bytes dg fe @ reserved) =
     Inr (FileEntry pathname (fe_size fe) (of_int (py_int (fe_ctime fe)))
            (of_int (py_int (fe_mtime fe))) (fe_mode fe) (Some dg) False)"
proof -
  define sz where "sz = be_bytes 8 (nat (fe_size fe))"
  define ct where "ct = be_bytes 4 (nat (py_int (fe_ctime fe)))"
  define mt where "mt = be_bytes 4 (nat (py_int (fe_mtime fe)))"
  define md where "md = be_bytes 4 (nat (fe_mode fe mod 2 ^ 32))"
  have l: "length sz = 8" "length ct = 4" "length mt = 4" "length md = 4"
    by (simp_all add: sz_def ct_def mt_def md_def length_be_bytes)
  have fb: "footer_bytes dg fe @ reserved = dg @ sz @ ct @ mt @ md @ reserved"
    by (simp add: footer_bytes_def sz_def ct_def mt_def md_def)
  have b: "take 20 (drop 16 (dg @ sz @ ct @ mt @ md @ reserved)) = sz @ ct @ mt @ md"
    using d l by simp
  have t16: "take 16 (dg @ sz @ ct @ mt @ md @ reserved) = dg" using d by simp
  have p: "take 8 (sz @ ct @ mt @ md) = sz" "take 4 (drop 8 (sz @ ct @ mt @ md)) = ct"
    "take 4 (drop 12 (sz @ ct @ mt @ md)) = mt" "take 4 (drop 16 (sz @ ct @ mt @ md)) = md"
    using l by simp_all
  from f have r: "0 \<le> fe_size fe" "fe_size fe < 256 ^ 8" "0 \<le> py_int (fe_ctime fe)"
    "py_int (fe_ctime fe) < 256 ^ 4" "0 \<le> py_int (fe_mtime fe)" "py_int (fe_mtime fe) < 256 ^ 4"
    "- (2 ^ 31) \<le> fe_mode fe" "fe_mode fe < 2 ^ 31"
    by (simp_all add: footer_fields_ok_def)
  have v: "unpack_unsigned sz = fe_size fe" "unpack_unsigned ct = py_int (fe_ctime fe)"
    "unpack_unsigned mt = py_int (fe_mtime fe)" "unpack_int32 md = fe_mode fe"
    unfolding sz_def ct_def mt_def md_def
    by (rule unpack_unsigned_be_bytes [OF r(1) r(2)] unpack_unsigned_be_bytes [OF r(3) r(4)]
          unpack_unsigned_be_bytes [OF r(5) r(6)] unpack_int32_be_bytes [OF r(7) r(8)])+
  have len: "length (sz @ ct @ mt @ md) = 20" using l by simp
  show ?thesis
    unfolding fb unpack_footer_def Let_def b t16 p v len by simp
qed

text \<open>
  Claim C4, as the code has it. For an entry whose digest has 16 bytes, whose size and
  mode are in the ranges of their formats and whose times, truncated to whole seconds by
  \<open>int\<close>, are in the range of theirs, \<open>_build_footer\<close> returns 48 bytes: the digest, the
  size on 8 bytes, \<open>int(ctime)\<close> and \<open>int(mtime)\<close> on 4 bytes each and the mode on 4
  bytes in two's complement, all big-endian, then 12 zero bytes. \<open>_unpack_footer\<close> on the
  first 36 of these bytes followed by any 12 bytes returns the entry's digest, size and
  mode and the truncated times \<open>int(ctime)\<close> and \<open>int(mtime)\<close>, with the given pathname.
\<close>

theorem footer_codec:
  assumes "footer_fields_ok fe" and "fe_digest fe = Some dg" and "length dg = 16"
  shows "build_footer fe =
           Inr (dg @ be_bytes 8 (nat (fe_size fe)) @ be_bytes 4 (nat (py_int (fe_ctime fe))) @
                be_bytes 4 (nat (py_int (fe_mtime fe))) @
                be_bytes 4 (nat (fe_mode fe mod 2 ^ 32)) @ replicate 12 0) \<and>
         length (footer_bytes dg fe @ replicate 12 0) = 48 \<and>
         (\<forall>pathname reserved. length reserved = 12 \<longrightarrow>
            unpack_footer pathname (footer_bytes dg fe @ reserved) =
              Inr (FileEntry pathname (fe_size fe) (of_int (py_int (fe_ctime fe)))
                     (of_int (py_int (fe_mtime fe))) (fe_mode fe) (Some dg) False))"
  using build_footer_ok [OF assms(1) assms(2)] unpack_footer_ok [OF assms(1) assms(3)]
  by (simp add: length_footer_bytes assms(3) footer_bytes_def length_be_bytes)

subsection \<open>The container \<open>encrypt_fd\<close> writes\<close>

lemma roundup_div: "(n::nat) mod 16 \<noteq> 0 \<Longrightarrow> (n + 15) div 16 = Suc (n div 16)"
proof -
  assume a: "n mod 16 \<noteq> 0"
  define q where "q = n div 16"
  define r where "r = n mod 16"
  have n: "n = 16 * q + r" unfolding q_def r_def by simp
  have r: "0 < r" "r < 16" using a unfolding r_def by simp_all
  have "(16 * q + r + 15) div 16 = Suc q"
    using r by (intro div_nat_eqI) simp_all
  then show ?thesis unfolding q_def [symmetric] using n by simp
qed

lemma length_pathname_padded: "length (pn @ pathname_padding (length pn)) = 16 * ((length pn + 15) div 16)"
proof (cases "length pn mod 16 = 0")
  case True
  then have "length pn = 16 * (length pn div 16)" by auto
  moreover have "(16 * (length pn div 16) + 15) div 16 = length pn div 16" by simp
  ultimately show ?thesis using True by (simp add: pathname_padding_def)
next
  case False
  have "length pn + (16 - length pn mod 16) = 16 * Suc (length pn div 16)" by (rule padded_len)
  moreover have "(length pn + 15) div 16 = Suc (length pn div 16)"
    using False by (rule roundup_div)
  ultimately show ?thesis using False by (simp add: pathname_padding_def)
qed

lemma length_content_padded:
  "length (content @ pkcs_padding (length content)) = 16 * Suc (length content div 16)"
  by (simp add: length_pkcs_padding padded_len)

lemma cbc_encrypt_blocks_append:
  assumes "length a = 16 * k"
  shows "cbc_encrypt_blocks E (k + m) ch (a @ b) =
     (fst (cbc_encrypt_blocks E k ch a) @
        fst (cbc_encrypt_blocks E m (snd (cbc_encrypt_blocks E k ch a)) b),
      snd (cbc_encrypt_blocks E m (snd (cbc_encrypt_blocks E k ch a)) b))"
proof -
  have t: "take (16 * k) (a @ b) = take (16 * k) a" using assms by simp
  have d: "drop (16 * k) (a @ b) = b" using assms by simp
  show ?thesis
    unfolding cbc_encrypt_blocks_add cbc_encrypt_blocks_cong [OF t] d by (rule refl)
qed

lemma encrypt_three_parts:
  assumes a: "length a = 16 * k" and b: "length b = 16 * m" and f: "length f = 16 * n"
    and p: "ctx_pending ctx = []"
  shows "fst (encryptor_update env ctx a) @
         fst (cbc_encrypt_blocks (aes_encrypt env (ctx_key ctx)) m
                (ctx_chain (snd (encryptor_update env ctx a))) b) @
         fst (encryptor_update env
                ((snd (encryptor_update env ctx a))
                   \<lparr>ctx_chain := snd (cbc_encrypt_blocks (aes_encrypt env (ctx_key ctx)) m
                        (ctx_chain (snd (encryptor_update env ctx a))) b),
                    ctx_pending := []\<rparr>) f)
         = cbc_cipher env ctx (a @ b @ f)"
    and "ctx_pending (snd (encryptor_update env
                ((snd (encryptor_update env ctx a))
                   \<lparr>ctx_chain := snd (cbc_encrypt_blocks (aes_encrypt env (ctx_key ctx)) m
                        (ctx_chain (snd (encryptor_update env ctx a))) b),
                    ctx_pending := []\<rparr>) f)) = []"
proof -
  let ?E = "aes_encrypt env (ctx_key ctx)"
  define A where "A = cbc_encrypt_blocks ?E k (ctx_chain ctx) a"
  define B where "B = cbc_encrypt_blocks ?E m (snd A) b"
  define F where "F = cbc_encrypt_blocks ?E n (snd B) f"
  have ua: "encryptor_update env ctx a = (fst A, ctx\<lparr>ctx_chain := snd A, ctx_pending := []\<rparr>)"
    unfolding A_def by (rule encryptor_update_aligned [OF p a])
  have ca: "ctx_chain (ctx\<lparr>ctx_chain := snd A, ctx_pending := []\<rparr>) = snd A" by simp
  have c2: "ctx\<lparr>ctx_chain := snd A, ctx_pending := []\<rparr>\<lparr>ctx_chain := snd B, ctx_pending := []\<rparr>
      = ctx\<lparr>ctx_chain := snd B, ctx_pending := []\<rparr>" by simp
  have p2: "ctx_pending (ctx\<lparr>ctx_chain := snd B, ctx_pending := []\<rparr>) = []" by simp
  have uf: "encryptor_update env (ctx\<lparr>ctx_chain := snd B, ctx_pending := []\<rparr>) f =
     (fst F, ctx\<lparr>ctx_chain := snd F, ctx_pending := []\<rparr>)"
    using encryptor_update_aligned [OF p2 f, of env] by (simp add: F_def)
  have lbf: "length (b @ f) = 16 * (m + n)" using b f by simp
  have bf: "cbc_encrypt_blocks ?E (m + n) (snd A) (b @ f) = (fst B @ fst F, snd F)"
    unfolding cbc_encrypt_blocks_append [OF b] B_def [symmetric] F_def [symmetric] by (rule refl)
  have abf: "cbc_encrypt_blocks ?E (k + (m + n)) (ctx_chain ctx) (a @ b @ f) =
      (fst A @ fst B @ fst F, snd F)"
    unfolding cbc_encrypt_blocks_append [OF a] A_def [symmetric] bf by simp
  have len: "length (a @ b @ f) div 16 = k + (m + n)" using a b f by simp
  have whole: "cbc_cipher env ctx (a @ b @ f) = fst A @ fst B @ fst F"
    unfolding cbc_cipher_def len abf by simp
  show "fst (encryptor_update env ctx a) @
         fst (cbc_encrypt_blocks (aes_encrypt env (ctx_key ctx)) m
                (ctx_chain (snd (encryptor_update env ctx a))) b) @
         fst (encryptor_update env
                ((snd (encryptor_update env ctx a))
                   \<lparr>ctx_chain := snd (cbc_encrypt_blocks (aes_encrypt env (ctx_key ctx)) m
                        (ctx_chain (snd (encryptor_update env ctx a))) b),
                    ctx_pending := []\<rparr>) f)
         = cbc_cipher env ctx (a @ b @ f)"
    unfolding ua fst_conv snd_conv ca B_def [symmetric] c2 uf whole by (rule refl)
  show "ctx_pending (snd (encryptor_update env
                ((snd (encryptor_update env ctx a))
                   \<lparr>ctx_chain := snd (cbc_encrypt_blocks (aes_encrypt env (ctx_key ctx)) m
                        (ctx_chain (snd (encryptor_update env ctx a))) b),
                    ctx_pending := []\<rparr>) f)) = []"
    unfolding ua fst_conv snd_conv ca B_def [symmetric] c2 uf by simp
qed

lemma encrypt_loop_aligned:
  assumes p: "ctx_pending enc = []"
  shows "fst (snd (snd (encrypt_loop env in_fd enc acc out))) = acc @ in_fd"
    and "concat (snd (snd (snd (encrypt_loop env in_fd enc acc out)))) =
           concat out @ fst (cbc_encrypt_blocks (aes_encrypt env (ctx_key enc))
             (Suc (length in_fd div 16)) (ctx_chain enc) (in_fd @ pkcs_padding (length in_fd)))"
    and "fst (snd (encrypt_loop env in_fd enc acc out)) =
           enc\<lparr>ctx_chain := snd (cbc_encrypt_blocks (aes_encrypt env (ctx_key enc))
                (Suc (length in_fd div 16)) (ctx_chain enc) (in_fd @ pkcs_padding (length in_fd))),
               ctx_pending := []\<rparr>"
proof -
  from encrypt_loop_result [OF p, of env in_fd acc out] obtain out' where
    e: "encrypt_loop env in_fd enc acc out =
       ([],
        enc\<lparr>ctx_chain := snd (cbc_encrypt_blocks (aes_encrypt env (ctx_key enc))
                (Suc (length in_fd div 16)) (ctx_chain enc) (in_fd @ pkcs_padding (length in_fd))),
            ctx_pending := []\<rparr>,
        acc @ in_fd, out')"
    and c: "concat out' = concat out @ fst (cbc_encrypt_blocks (aes_encrypt env (ctx_key enc))
                (Suc (length in_fd div 16)) (ctx_chain enc) (in_fd @ pkcs_padding (length in_fd)))"
    by blast
  show "fst (snd (snd (encrypt_loop env in_fd enc acc out))) = acc @ in_fd"
    unfolding e by simp
  show "concat (snd (snd (snd (encrypt_loop env in_fd enc acc out)))) =
           concat out @ fst (cbc_encrypt_blocks (aes_encrypt env (ctx_key enc))
             (Suc (length in_fd div 16)) (ctx_chain enc) (in_fd @ pkcs_padding (length in_fd)))"
    unfolding e snd_conv fst_conv by (rule c)
  show "fst (snd (encrypt_loop env in_fd enc acc out)) =
           enc\<lparr>ctx_chain := snd (cbc_encrypt_blocks (aes_encrypt env (ctx_key enc))
                (Suc (length in_fd div 16)) (ctx_chain enc) (in_fd @ pkcs_padding (length in_fd))),
               ctx_pending := []\<rparr>"
    unfolding e snd_conv fst_conv by (rule refl)
qed

lemma encrypt_loop_out_prefix:
  "\<exists>rest. snd (snd (snd (encrypt_loop env in_fd enc acc out))) = out @ rest"
proof (induction "length in_fd" arbitrary: in_fd enc acc out rule: less_induct)
  case less
  show ?case
  proof (cases "take 16384 in_fd = [] \<or> length (take 16384 in_fd) mod 16 \<noteq> 0")
    case True
    have short: "length in_fd < 16384"
    proof (rule ccontr)
      assume "\<not> length in_fd < 16384"
      then have "length (take 16384 in_fd) = 16384" by simp
      with True show False by auto
    qed
    then have "take 16384 in_fd = in_fd" by simp
    with True have c: "in_fd = [] \<or> length in_fd mod 16 \<noteq> 0" by simp
    show ?thesis unfolding encrypt_loop_last [OF short c] by simp
  next
    case False
    then have nz: "take 16384 in_fd \<noteq> []" and al: "length (take 16384 in_fd) mod 16 = 0"
      by auto
    from nz have "in_fd \<noteq> []" by auto
    then have lt: "length (drop 16384 in_fd) < length in_fd" by simp
    from less.hyps [OF lt, of "snd (encryptor_update env enc (take 16384 in_fd))"
        "acc @ take 16384 in_fd" "out @ [fst (encryptor_update env enc (take 16384 in_fd))]"]
    obtain rest where
      "snd (snd (snd (encrypt_loop env (drop 16384 in_fd)
          (snd (encryptor_update env enc (take 16384 in_fd))) (acc @ take 16384 in_fd)
          (out @ [fst (encryptor_update env enc (take 16384 in_fd))])))) =
        (out @ [fst (encryptor_update env enc (take 16384 in_fd))]) @ rest"
      by blast
    then show ?thesis unfolding encrypt_loop_step [OF nz al] by simp
  qed
qed

lemma footer_fields_ok_update:
  "footer_fields_ok (fe\<lparr>fe_salt := s, fe_digest := d\<rparr>) = footer_fields_ok fe"
  by (simp add: footer_fields_ok_def)

lemma footer_bytes_update:
  "footer_bytes dg (fe\<lparr>fe_salt := s, fe_digest := d\<rparr>) = footer_bytes dg fe"
  by (simp add: footer_bytes_def)

lemma encrypt_fd_container:
  assumes key: "key_size_ok c" and wf: "wf_entry fe"
  shows "fst (encrypt_fd env c in_fd (Some fe) flags) = Inr (encrypt_entry env flags in_fd fe)"
    and "concat (snd (encrypt_fd env c in_fd (Some fe) flags)) =
      container env c (encrypt_salt env fe) (of_int (flags AND 0xFF)) (fe_pathname fe)
        (encrypt_data env flags in_fd)
        (footer_bytes (md5_digest env (encrypt_data env flags in_fd)) fe @ replicate 12 0)"
    and "snd (encrypt_fd env c in_fd (Some fe) flags) ! 3 =
      cbc_cipher env (initial_ctx env c (encrypt_salt env fe))
        (fe_pathname fe @ pathname_padding (length (fe_pathname fe)))"
proof -
  define salt where "salt = encrypt_salt env fe"
  define data where "data = encrypt_data env flags in_fd"
  define dg where "dg = md5_digest env data"
  define ctx where "ctx = initial_ctx env c salt"
  define pn where "pn = fe_pathname fe"
  define a where "a = pn @ pathname_padding (length pn)"
  define b where "b = data @ pkcs_padding (length data)"
  define f where "f = footer_bytes dg fe @ replicate 12 0"
  define fe1 where "fe1 = fe\<lparr>fe_salt := Some salt\<rparr>"
  define fe2 where "fe2 = fe\<lparr>fe_salt := Some salt, fe_digest := Some dg\<rparr>"
  define E where "E = aes_encrypt env (ctx_key ctx)"
  define r1 where "r1 = encryptor_update env ctx a"
  define B where "B = cbc_encrypt_blocks E (Suc (length data div 16)) (ctx_chain (snd r1)) b"
  define enc2 where "enc2 = (snd r1)\<lparr>ctx_chain := snd B, ctx_pending := []\<rparr>"
  define r2 where "r2 = encryptor_update env enc2 f"
  define hdr where "hdr = (([[of_nat VERSION, of_int (flags AND 0xFF)]] @ [be_bytes 2 (length pn)]) @ [salt]) @ [fst r1]"
  define lp where "lp = encrypt_loop env data (snd r1) [] hdr"
  from wf have ffo: "footer_fields_ok fe" and pl: "length pn < 2 ^ 16"
    by (simp_all add: wf_entry_def pn_def)
  have p: "ctx_pending ctx = []" unfolding ctx_def by (rule pending_initial_ctx)
  have la: "length a = 16 * ((length pn + 15) div 16)" unfolding a_def by (rule length_pathname_padded)
  have lb: "length b = 16 * Suc (length data div 16)" unfolding b_def by (rule length_content_padded)
  have lf: "length f = 16 * 3" unfolding f_def by (simp add: length_footer_bytes dg_def length_md5_digest)
  have u1: "r1 = (fst (cbc_encrypt_blocks E ((length pn + 15) div 16) (ctx_chain ctx) a),
      ctx\<lparr>ctx_chain := snd (cbc_encrypt_blocks E ((length pn + 15) div 16) (ctx_chain ctx) a),
          ctx_pending := []\<rparr>)"
    unfolding r1_def E_def by (rule encryptor_update_aligned [OF p la])
  have p1: "ctx_pending (snd r1) = []" unfolding u1 by simp
  have k1: "ctx_key (snd r1) = ctx_key ctx" unfolding u1 by simp
  have lp_acc: "fst (snd (snd lp)) = data"
    unfolding lp_def using encrypt_loop_aligned(1) [OF p1, of env data "[]"] by simp
  have lp_out: "concat (snd (snd (snd lp))) = concat hdr @ fst B"
    unfolding lp_def B_def E_def b_def k1 [symmetric]
    by (rule encrypt_loop_aligned(2) [OF p1])
  have lp_enc: "fst (snd lp) = enc2"
    unfolding lp_def enc2_def B_def E_def b_def k1 [symmetric]
    by (rule encrypt_loop_aligned(3) [OF p1])
  have three: "fst r1 @ fst B @ fst r2 = cbc_cipher env ctx (a @ b @ f)"
    unfolding r1_def r2_def enc2_def B_def E_def
    by (rule encrypt_three_parts(1) [OF la lb lf p])
  have pend2: "ctx_pending (snd r2) = []"
    unfolding r1_def r2_def enc2_def B_def E_def
    by (rule encrypt_three_parts(2) [OF la lb lf p])
  have nc: "new_cipher (fst (gen_key_and_iv env c salt)) (snd (gen_key_and_iv env c salt)) = Inr ctx"
    unfolding ctx_def by (rule new_cipher_gen_key [OF key])
  have tk: "take (2 ^ 16) (fe_pathname fe1) = pn" using pl by (simp add: fe1_def pn_def)
  have pk: "pack_unsigned 2 (int (length pn)) = Inr (be_bytes 2 (length pn))"
    using pl by (simp add: pack_unsigned_def)
  have pp: "(if length pn mod 16 \<noteq> 0 then replicate (16 - length pn mod 16) 0 else []) =
      pathname_padding (length pn)" by (simp add: pathname_padding_def)
  have bf: "build_footer fe2 = Inr f"
    unfolding fe2_def f_def
    using build_footer_ok [of "fe\<lparr>fe_salt := Some salt, fe_digest := Some dg\<rparr>" dg]
    by (simp add: footer_fields_ok_update footer_bytes_update ffo)
  have fin: "cipher_finalize (snd r2) = Inr []" by (simp add: cipher_finalize_def pend2)
  have salt_eq: "(case fe_salt fe of None \<Rightarrow> urandom env (16 - 4) | Some s \<Rightarrow> s) = salt"
    by (simp add: salt_def encrypt_salt_def)
  have data_eq: "(if (flags AND 0xFF) AND COMPRESS \<noteq> 0 then zlib_compress env in_fd else in_fd) = data"
    by (simp add: data_def encrypt_data_def)
  have fe12: "fe1\<lparr>fe_digest := Some dg\<rparr> = fe2" by (simp add: fe1_def fe2_def)
  have res: "encrypt_fd env c in_fd (Some fe) flags =
      (Inr fe2, (snd (snd (snd lp)) @ [fst r2]) @ [[]])"
    unfolding encrypt_fd_def Let_def option.case salt_eq fe1_def [symmetric] nc sum.case tk pk
      pp a_def [symmetric] r1_def [symmetric] data_eq fd_write_def append_Nil
    unfolding hdr_def [symmetric] lp_def [symmetric] lp_acc lp_enc dg_def [symmetric]
      fe12 bf sum.case r2_def [symmetric] fin
    by (rule refl)
  show "fst (encrypt_fd env c in_fd (Some fe) flags) = Inr (encrypt_entry env flags in_fd fe)"
    unfolding res fst_conv fe2_def encrypt_entry_def salt_def dg_def data_def by (rule refl)
  have ch: "concat hdr = [of_nat VERSION, of_int (flags AND 0xFF)] @ be_bytes 2 (length pn) @ salt @ fst r1"
    by (simp add: hdr_def)
  have "concat (snd (encrypt_fd env c in_fd (Some fe) flags)) =
      [of_nat VERSION, of_int (flags AND 0xFF)] @ be_bytes 2 (length pn) @ salt @
      (fst r1 @ fst B @ fst r2)"
    unfolding res snd_conv by (simp add: lp_out ch)
  then show "concat (snd (encrypt_fd env c in_fd (Some fe) flags)) =
      container env c (encrypt_salt env fe) (of_int (flags AND 0xFF)) (fe_pathname fe)
        (encrypt_data env flags in_fd)
        (footer_bytes (md5_digest env (encrypt_data env flags in_fd)) fe @ replicate 12 0)"
    unfolding three container_def container_plain_def
    unfolding a_def b_def f_def ctx_def salt_def data_def dg_def pn_def
    by simp
  have lh: "length hdr = 4" by (simp add: hdr_def)
  have h3: "hdr ! 3 = fst r1" by (simp add: hdr_def)
  from encrypt_loop_out_prefix [of env data "snd r1" "[]" hdr]
  obtain rest where pre: "snd (snd (snd lp)) = hdr @ rest" unfolding lp_def by blast
  have la': "length a div 16 = (length pn + 15) div 16" unfolding la by simp
  have r1c: "fst r1 = cbc_cipher env ctx a"
    unfolding u1 fst_conv cbc_cipher_def la' E_def by (rule refl)
  have "snd (encrypt_fd env c in_fd (Some fe) flags) ! 3 = fst r1"
    unfolding res snd_conv pre using lh h3 by (simp add: nth_append)
  then show "snd (encrypt_fd env c in_fd (Some fe) flags) ! 3 =
      cbc_cipher env (initial_ctx env c (encrypt_salt env fe))
        (fe_pathname fe @ pathname_padding (length (fe_pathname fe)))"
    unfolding r1c a_def ctx_def salt_def pn_def .
qed

subsection \<open>A concrete entry\<close>

lemma py_int_toy: "py_int (201 / 2) = 100" "py_int (2009 / 10) = 200"
  by (simp_all add: py_int_def)

lemma footer_fields_ok_toy: "footer_fields_ok toy_entry"
  by (simp add: footer_fields_ok_def toy_entry_def FileEntry_def py_int_toy)

lemma wf_entry_toy: "wf_entry toy_entry"
  by (simp add: wf_entry_def footer_fields_ok_toy) (simp add: toy_entry_def FileEntry_def)

lemma footer_fields_ok_toy_digest:
  "footer_fields_ok (toy_entry\<lparr>fe_digest := Some (replicate 16 7)\<rparr>)"
  by (simp add: footer_fields_ok_def toy_entry_def FileEntry_def py_int_toy)

theorem footer_codec_witness:
  "footer_fields_ok (toy_entry\<lparr>fe_digest := Some (replicate 16 7)\<rparr>) \<and>
   length (replicate 16 (7::byte)) = 16 \<and>
   build_footer (toy_entry\<lparr>fe_digest := Some (replicate 16 7)\<rparr>) =
     Inr (replicate 16 7 @ be_bytes 8 3 @ be_bytes 4 100 @ be_bytes 4 200 @
          be_bytes 4 4294967291 @ replicate 12 0) \<and>
   unpack_footer [0x62]
     (footer_bytes (replicate 16 7) (toy_entry\<lparr>fe_digest := Some (replicate 16 7)\<rparr>) @
      replicate 12 0xFF) =
     Inr (FileEntry [0x62] 3 100 200 (- 5) (Some (replicate 16 7)) False)"
proof -
  let ?fe = "toy_entry\<lparr>fe_digest := Some (replicate 16 7)\<rparr>"
  note a = footer_fields_ok_toy_digest
  have b: "fe_digest ?fe = Some (replicate 16 7)" by simp
  have c: "length (replicate 16 (7::byte)) = 16" by simp
  have f: "fe_size ?fe = 3" "py_int (fe_ctime ?fe) = 100" "py_int (fe_mtime ?fe) = 200"
    "fe_mode ?fe = - 5"
    by (simp_all add: toy_entry_def FileEntry_def py_int_toy)
  have m: "nat (- 5 mod 2 ^ 32) = 4294967291" by simp
  have l: "length (replicate 12 (0xFF::byte)) = 12" by simp
  from footer_codec [OF a b c]
  have t1: "build_footer ?fe =
       Inr (replicate 16 7 @ be_bytes 8 (nat (fe_size ?fe)) @
            be_bytes 4 (nat (py_int (fe_ctime ?fe))) @
            be_bytes 4 (nat (py_int (fe_mtime ?fe))) @ be_bytes 4 (nat (fe_mode ?fe mod 2 ^ 32)) @
            replicate 12 0)"
    and t2: "\<forall>pathname reserved. length reserved = 12 \<longrightarrow>
       unpack_footer pathname (footer_bytes (replicate 16 7) ?fe @ reserved) =
         Inr (FileEntry pathname (fe_size ?fe) (of_int (py_int (fe_ctime ?fe)))
               (of_int (py_int (fe_mtime ?fe))) (fe_mode ?fe) (Some (replicate 16 7)) False)"
    by blast+
  from t2 l have t3: "unpack_footer [0x62] (footer_bytes (replicate 16 7) ?fe @ replicate 12 0xFF) =
         Inr (FileEntry [0x62] (fe_size ?fe) (of_int (py_int (fe_ctime ?fe)))
               (of_int (py_int (fe_mtime ?fe))) (fe_mode ?fe) (Some (replicate 16 7)) False)"
    by blast
  show ?thesis
    using a c t1 t3 unfolding f m by simp
qed

text \<open>
  Claim C4 as it is written fails: for the entry with ctime 100.5 and mtime 200.9 the
  footer unpacks to ctime 100 and mtime 200, not to the entry's times.
\<close>

theorem footer_codec_counterexample:
  "unpack_footer [0x62]
     (footer_bytes (replicate 16 7) (toy_entry\<lparr>fe_digest := Some (replicate 16 7)\<rparr>) @
      replicate 12 0) =
     Inr (FileEntry [0x62] 3 100 200 (- 5) (Some (replicate 16 7)) False) \<and>
   fe_ctime (toy_entry\<lparr>fe_digest := Some (replicate 16 7)\<rparr>) = 201 / 2 \<and>
   fe_mtime (toy_entry\<lparr>fe_digest := Some (replicate 16 7)\<rparr>) = 2009 / 10 \<and>
   FileEntry [0x62] 3 100 200 (- 5) (Some (replicate 16 7)) False \<noteq>
   FileEntry [0x62] 3 (201 / 2) (2009 / 10) (- 5) (Some (replicate 16 7)) False"
proof -
  let ?fe = "toy_entry\<lparr>fe_digest := Some (replicate 16 7)\<rparr>"
  have c: "length (replicate 16 (7::byte)) = 16" by simp
  have f: "fe_size ?fe = 3" "py_int (fe_ctime ?fe) = 100" "py_int (fe_mtime ?fe) = 200"
    "fe_mode ?fe = - 5"
    by (simp_all add: toy_entry_def FileEntry_def py_int_toy)
  have u: "unpack_footer [0x62] (footer_bytes (replicate 16 7) ?fe @ replicate 12 0) =
      Inr (FileEntry [0x62] 3 100 200 (- 5) (Some (replicate 16 7)) False)"
    using unpack_footer_ok [OF footer_fields_ok_toy_digest c, of "[0x62]" "replicate 12 0"]
    unfolding f by simp
  have t: "fe_ctime ?fe = 201 / 2" "fe_mtime ?fe = 2009 / 10"
    by (simp_all add: toy_entry_def FileEntry_def)
  have n: "FileEntry [0x62] 3 100 200 (- 5) (Some (replicate 16 7)) False \<noteq>
      FileEntry [0x62] 3 (201 / 2) (2009 / 10) (- 5) (Some (replicate 16 7)) False"
    by (simp add: FileEntry_def)
  from u t n show ?thesis by simp
qed

text \<open>
  Claim C6 fails on the code. \<open>encrypt_fd\<close> truncates the encoded pathname to
  \<open>2 ** 16 = 65536\<close> bytes, one more than a 16-bit field holds, so for a pathname of 65536
  encoded bytes or more \<open>pack('!H', pathname_size)\<close> raises \<open>struct.error\<close> after the
  first two header bytes have been written.
\<close>

theorem encrypt_fd_long_pathname:
  assumes "key_size_ok c" and "2 ^ 16 \<le> length (fe_pathname fe)"
  shows "encrypt_fd env c in_fd (Some fe) flags =
           (Inl StructError, [[of_nat VERSION, of_int (flags AND 0xFF)]])"
proof -
  define salt where "salt = (case fe_salt fe of None \<Rightarrow> urandom env (16 - 4) | Some s \<Rightarrow> s)"
  have nc: "new_cipher (fst (gen_key_and_iv env c salt)) (snd (gen_key_and_iv env c salt)) =
      Inr (initial_ctx env c salt)"
    by (rule new_cipher_gen_key [OF assms(1)])
  have l: "length (take (2 ^ 16) (fe_pathname (fe\<lparr>fe_salt := Some salt\<rparr>))) = 2 ^ 16"
    using assms(2) by simp
  have pk: "pack_unsigned 2 (int (2 ^ 16)) = Inl StructError"
    by (simp add: pack_unsigned_def)
  show ?thesis
    unfolding encrypt_fd_def Let_def option.case salt_def [symmetric] nc sum.case l pk
      fd_write_def append_Nil
    by (rule refl)
qed

theorem encrypt_fd_long_pathname_witness:
  "key_size_ok toy_crypto \<and>
   2 ^ 16 \<le> length (fe_pathname (toy_entry\<lparr>fe_pathname := replicate 65536 0x61\<rparr>)) \<and>
   encrypt_fd toy_env toy_crypto [] (Some (toy_entry\<lparr>fe_pathname := replicate 65536 0x61\<rparr>)) 0 =
     (Inl StructError, [[1, 0]])"
proof -
  have b: "2 ^ 16 \<le> length (fe_pathname (toy_entry\<lparr>fe_pathname := replicate 65536 0x61\<rparr>))"
    by simp
  show ?thesis
    using encrypt_fd_long_pathname [OF key_size_ok_toy b, of toy_env "[]" 0] key_size_ok_toy b
    by simp
qed

subsection \<open>\<open>decrypt_fd\<close> on a container\<close>

lemma pathname_block_size_blocks: "16 * (pathname_block_size ps div 16) = 16 * ((ps + 15) div 16)"
proof (cases "ps mod 16 = 0")
  case True
  then obtain q where q: "ps = 16 * q" by auto
  show ?thesis unfolding pathname_block_size_eq q by simp
next
  case False
  have "(ps + 16) div 16 = Suc (ps div 16)" by simp
  then show ?thesis unfolding pathname_block_size_eq using False roundup_div [OF False] by simp
qed

lemma pathname_block_size_le: "pathname_block_size ps \<le> 16 * ((ps + 15) div 16) + 15"
proof (cases "ps mod 16 = 0")
  case True
  then obtain q where q: "ps = 16 * q" by auto
  show ?thesis unfolding pathname_block_size_eq q by simp
next
  case False
  define q where "q = ps div 16"
  define r where "r = ps mod 16"
  have ps: "ps = 16 * q + r" unfolding q_def r_def by simp
  have r: "r < 16" unfolding r_def by simp
  have "(ps + 15) div 16 = Suc q" unfolding q_def by (rule roundup_div [OF False])
  then show ?thesis unfolding pathname_block_size_eq using False r ps by simp
qed

lemma pathname_block_size_ge: "ps \<le> pathname_block_size ps"
  by (simp add: pathname_block_size_eq)

lemma decrypt_last_chunk_ok:
  assumes pt: "PT = P1 @ content @ padl @ ft"
    and ft: "length ft = 48"
    and padl: "padl = replicate p (of_nat p)" and p: "0 < p" "p \<le> 16"
    and t0: "length P1 \<le> T0" "T0 + 64 \<le> length PT"
    and uf: "unpack_footer pn ft = Inr fe'"
  shows "decrypt_last_chunk pn (drop T0 PT) (drop (length P1) (take T0 PT))
           (drop (length P1) (take T0 PT)) [] =
         (Inr (fe', content, content), [])"
proof -
  define tail where "tail = drop T0 PT"
  define n1 where "n1 = length P1 + length content"
  have tot: "length PT = n1 + p + 48"
    unfolding pt n1_def by (simp add: ft padl)
  have ge: "T0 + 64 \<le> n1 + p + 48" using t0(2) unfolding tot .
  have lt: "length tail = n1 + p + 48 - T0" by (simp add: tail_def tot)
  have pre: "PT = (P1 @ content @ padl) @ ft" unfolding pt by simp
  have lpre: "length (P1 @ content @ padl) = n1 + p" by (simp add: n1_def padl)
  have pre2: "P1 @ content @ padl = (P1 @ content) @ padl" by simp
  have lpre2: "length (P1 @ content) = n1" by (simp add: n1_def)
  have sl: "slice_last 48 tail = ft"
  proof -
    have e: "n1 + p + 48 - T0 - 48 + T0 = n1 + p" using ge by simp
    have "slice_last 48 tail = drop (n1 + p) PT"
      unfolding slice_last_def lt unfolding tail_def drop_drop e by (rule refl)
    also have "\<dots> = ft" unfolding pre using lpre by simp
    finally show ?thesis .
  qed
  have pb: "unat (of_nat p :: byte) = p" using p by (simp add: unat_of_nat)
  have sn: "slice_neg 49 48 tail = [of_nat p]"
  proof -
    have e1: "n1 + p + 48 - T0 - 48 = n1 + p - T0" by simp
    have e2: "n1 + p + 48 - T0 - 49 + T0 = n1 + p - 1" using ge by simp
    have a: "take (n1 + p - T0) (drop T0 PT) = drop T0 (take (n1 + p) PT)"
      using ge by (simp add: drop_take)
    have b: "take (n1 + p) PT = P1 @ content @ padl" unfolding pre using lpre by simp
    have "slice_neg 49 48 tail = drop (n1 + p - 1) ((P1 @ content) @ padl)"
      unfolding slice_neg_def lt unfolding tail_def e1 a b drop_drop e2 pre2 by (rule refl)
    also have "\<dots> = drop (p - 1) padl" using lpre2 p by simp
    also have "\<dots> = [of_nat p]"
    proof -
      have "p - (p - 1) = Suc 0" using p by simp
      then show ?thesis unfolding padl drop_replicate by simp
    qed
    finally show ?thesis .
  qed
  have sb: "slice_butlast (p + 48) tail = drop T0 (take n1 PT)"
  proof -
    have e1: "n1 + p + 48 - T0 - (p + 48) = n1 - T0" by simp
    show ?thesis
      unfolding slice_butlast_def lt unfolding tail_def e1 by (simp add: drop_take)
  qed
  have j: "drop (length P1) (take T0 PT) @ drop T0 (take n1 PT) = drop (length P1) (take n1 PT)"
  proof (rule drop_take_join)
    show "length P1 \<le> T0" by (rule t0(1))
    show "T0 \<le> n1" using ge p by simp
  qed
  have k: "drop (length P1) (take n1 PT) = content"
    unfolding pt n1_def by simp
  show ?thesis
    unfolding decrypt_last_chunk_def tail_def [symmetric] sl uf sum.case sn byte0_def list.case
      pb Let_def sb j k
    by (rule refl)
qed

lemma length_container_plain:
  "length (container_plain pn content ft) =
     16 * ((length pn + 15) div 16) + 16 * Suc (length content div 16) + length ft"
proof -
  have a: "length pn + length (pathname_padding (length pn)) = 16 * ((length pn + 15) div 16)"
    using length_pathname_padded [of pn] by simp
  have b: "length content + length (pkcs_padding (length content)) = 16 * Suc (length content div 16)"
    using length_content_padded [of content] by simp
  show ?thesis using a b by (simp add: container_plain_def)
qed

lemma length_cbc_cipher: "length (cbc_cipher env ctx pt) = 16 * (length pt div 16)"
  by (simp add: cbc_cipher_def length_cbc_encrypt_blocks)

lemma cbc_plain_cipher:
  assumes ok: "env_ok env" and al: "length pt = 16 * N"
  shows "cbc_plain env ctx (cbc_cipher env ctx pt) = pt"
proof -
  have inv: "\<And>b. aes_decrypt env (ctx_key ctx) (aes_encrypt env (ctx_key ctx) b) = b"
    using ok by (simp add: env_ok_def)
  have n: "length pt div 16 = N" using al by simp
  have l: "length (cbc_cipher env ctx pt) div 16 = N"
    unfolding length_cbc_cipher n by simp
  have le: "16 * N \<le> length pt" using al by simp
  have "cbc_decrypt_blocks (aes_decrypt env (ctx_key ctx)) N (ctx_chain ctx)
          (fst (cbc_encrypt_blocks (aes_encrypt env (ctx_key ctx)) N (ctx_chain ctx) pt) @ []) =
        (take (16 * N) pt, snd (cbc_encrypt_blocks (aes_encrypt env (ctx_key ctx)) N (ctx_chain ctx) pt))"
    by (rule cbc_decrypt_encrypt [where D = "aes_decrypt env (ctx_key ctx)"
          and E = "aes_encrypt env (ctx_key ctx)", OF inv le])
  then have "fst (cbc_decrypt_blocks (aes_decrypt env (ctx_key ctx)) N (ctx_chain ctx)
          (fst (cbc_encrypt_blocks (aes_encrypt env (ctx_key ctx)) N (ctx_chain ctx) pt))) = pt"
    using al by simp
  then show ?thesis
    unfolding cbc_plain_def l unfolding cbc_cipher_def n .
qed

lemma container_header:
  assumes sl: "length salt = 12" and pl: "length pn < 2 ^ 16"
  shows "16 \<le> length (container env c salt fl pn content ft)"
    and "unat (container env c salt fl pn content ft ! 0) \<le> VERSION"
    and "container env c salt fl pn content ft ! 1 = fl"
    and "header_salt (container env c salt fl pn content ft) = salt"
    and "header_pathname_size (container env c salt fl pn content ft) = length pn"
    and "drop 16 (container env c salt fl pn content ft) =
           cbc_cipher env (initial_ctx env c salt) (container_plain pn content ft)"
proof -
  define ct where "ct = cbc_cipher env (initial_ctx env c salt) (container_plain pn content ft)"
  define ps2 where "ps2 = be_bytes 2 (length pn)"
  have l2: "length ps2 = 2" by (simp add: ps2_def length_be_bytes)
  have c: "container env c salt fl pn content ft = [of_nat VERSION, fl] @ ps2 @ salt @ ct"
    by (simp add: container_def ct_def ps2_def)
  have t16: "take 16 ([of_nat VERSION, fl] @ ps2 @ salt @ ct) = [of_nat VERSION, fl] @ ps2 @ salt"
    using l2 sl by simp
  show "16 \<le> length (container env c salt fl pn content ft)"
    unfolding c using l2 sl by simp
  show "unat (container env c salt fl pn content ft ! 0) \<le> VERSION"
    unfolding c by simp
  show "container env c salt fl pn content ft ! 1 = fl"
    unfolding c by simp
  show "header_salt (container env c salt fl pn content ft) = salt"
    unfolding c header_salt_def t16 using l2 sl by simp
  have d2: "drop 2 ([of_nat VERSION, fl] @ ps2 @ salt) = ps2 @ salt" by simp
  have t2: "take 2 (ps2 @ salt) = ps2" using l2 by simp
  have "header_pathname_size (container env c salt fl pn content ft) =
      nat (unpack_unsigned (be_bytes 2 (length pn)))"
    unfolding c header_pathname_size_def t16 d2 t2 unfolding ps2_def by (rule refl)
  also have "unpack_unsigned (be_bytes 2 (nat (int (length pn)))) = int (length pn)"
    by (rule unpack_unsigned_be_bytes) (use pl in simp_all)
  then have "nat (unpack_unsigned (be_bytes 2 (length pn))) = length pn" by simp
  finally show "header_pathname_size (container env c salt fl pn content ft) = length pn" .
  show "drop 16 (container env c salt fl pn content ft) =
           cbc_cipher env (initial_ctx env c salt) (container_plain pn content ft)"
    unfolding c ct_def [symmetric] using l2 sl by simp
qed

lemma unpack_footer_48:
  "length ft = 48 \<Longrightarrow> \<exists>fe'. unpack_footer pn ft = Inr fe' \<and> fe_digest fe' = Some (take 16 ft)"
  by (simp add: unpack_footer_def Let_def FileEntry_def)

lemma container_tail_le: "container_tail ps n \<le> 16 * Suc (n div 16) + 48"
proof -
  define A0 where "A0 = 16 * ((ps + 15) div 16)"
  define pbs where "pbs = pathname_block_size ps"
  define total where "total = A0 + 16 * Suc (n div 16) + 48"
  define j where "j = (total - pbs - 1) div 16384"
  have b16: "16 * (pbs div 16) = A0"
    unfolding pbs_def A0_def by (rule pathname_block_size_blocks)
  have "pbs div 16 \<le> (pbs + 16384 * j) div 16" by (rule div_le_mono) simp
  then have a0: "A0 \<le> 16 * ((pbs + 16384 * j) div 16)" unfolding b16 [symmetric] by simp
  have "container_tail ps n = total - 16 * ((pbs + 16384 * j) div 16)"
    unfolding container_tail_def Let_def A0_def [symmetric] total_def [symmetric]
      pbs_def [symmetric] j_def [symmetric] by (rule refl)
  then show ?thesis using a0 unfolding total_def by simp
qed

text \<open>
  On a container, \<open>decrypt_fd\<close> reads the header and the pathname, and its loop ends in the
  iteration that holds the last \<open>container_tail\<close> bytes of the plaintext, with the plaintext
  between the pathname region and these bytes in the buffer.
\<close>

lemma container_last_chunk:
  assumes ok: "env_ok env" and key: "key_size_ok c" and sl: "length salt = 12"
    and pl: "length pn < 2 ^ 16" and fl: "length ft = 48"
  shows "\<exists>dec rest.
           decrypt_header env c (container env c salt flg pn content ft) =
             Inr (uint flg, salt, pn, dec, rest) \<and>
           decrypt_loop env pn [] rest dec [] [] =
             Some (decrypt_last_chunk pn
                     (drop (length (container_plain pn content ft) -
                              container_tail (length pn) (length content))
                        (container_plain pn content ft))
                     (drop (16 * ((length pn + 15) div 16))
                        (take (length (container_plain pn content ft) -
                                 container_tail (length pn) (length content))
                           (container_plain pn content ft)))
                     (drop (16 * ((length pn + 15) div 16))
                        (take (length (container_plain pn content ft) -
                                 container_tail (length pn) (length content))
                           (container_plain pn content ft)))
                     [])"
proof -
  define inp where "inp = container env c salt flg pn content ft"
  define ctx where "ctx = initial_ctx env c salt"
  define PT where "PT = container_plain pn content ft"
  define CT where "CT = cbc_cipher env ctx PT"
  define ps where "ps = length pn"
  define pbs where "pbs = pathname_block_size ps"
  define A0 where "A0 = 16 * ((ps + 15) div 16)"
  define total where "total = A0 + 16 * Suc (length content div 16) + 48"
  define j where "j = (total - pbs - 1) div 16384"
  define T0 where "T0 = 16 * ((pbs + 16384 * j) div 16)"
  define P1 where "P1 = pn @ pathname_padding ps"
  note h = container_header [OF sl pl, of env c flg content ft, folded inp_def]
  have hs: "header_salt inp = salt" by (rule h(4))
  have hp: "header_pathname_size inp = ps" unfolding ps_def by (rule h(5))
  have d16: "drop 16 inp = CT" unfolding CT_def PT_def ctx_def by (rule h(6))
  have lPT: "length PT = total"
    unfolding PT_def total_def A0_def ps_def length_container_plain fl by (rule refl)
  have al: "length PT = 16 * ((ps + 15) div 16 + Suc (length content div 16) + 3)"
    unfolding lPT total_def A0_def by simp
  have lCT: "length CT = total"
    unfolding CT_def length_cbc_cipher al unfolding lPT [symmetric] al by simp
  have plain: "cbc_plain env ctx CT = PT"
    unfolding CT_def by (rule cbc_plain_cipher [OF ok al])
  have pctx: "ctx_pending ctx = []" unfolding ctx_def by (rule pending_initial_ctx)
  have b16: "16 * (pbs div 16) = A0"
    unfolding pbs_def A0_def by (rule pathname_block_size_blocks)
  have ple: "pbs \<le> A0 + 15" unfolding pbs_def A0_def by (rule pathname_block_size_le)
  have plt: "pbs < total" using ple unfolding total_def by simp
  have pn_le: "pathname_block_size (header_pathname_size inp) \<le> length inp - 16"
  proof -
    have "length inp - 16 = length (drop 16 inp)" by simp
    then show ?thesis unfolding hp pbs_def [symmetric] d16 lCT using plt by simp
  qed
  have lP1: "length P1 = A0"
    unfolding P1_def A0_def ps_def by (rule length_pathname_padded)
  have ptake: "take ps (take A0 PT) = pn"
  proof -
    have "PT = P1 @ ((content @ pkcs_padding (length content)) @ ft)"
      unfolding PT_def container_plain_def P1_def ps_def by simp
    then have "take A0 PT = P1" using lP1 by simp
    then show ?thesis unfolding P1_def ps_def by simp
  qed
  have hdr: "decrypt_header env c inp =
      Inr (uint flg, salt, pn, dec_after env ctx CT pbs, drop pbs CT)"
    unfolding decrypt_header_ok [OF h(1) h(2) key pn_le]
    unfolding hs hp h(3) d16 ctx_def [symmetric] pbs_def [symmetric] plain b16 ptake
    by (rule refl)
  have ct: "container_tail ps (length content) = total - T0"
    unfolding container_tail_def Let_def A0_def [symmetric] total_def [symmetric]
      pbs_def [symmetric] j_def [symmetric] T0_def [symmetric] by (rule refl)
  have t0: "T0 \<le> total"
  proof -
    have "16384 * j \<le> total - pbs - 1" unfolding j_def by simp
    then have "pbs + 16384 * j \<le> total" using plt by simp
    moreover have "T0 \<le> pbs + 16384 * j" unfolding T0_def by (rule blocks_le)
    ultimately show ?thesis by simp
  qed
  have tt: "length PT - container_tail ps (length content) = T0"
    unfolding lPT ct using t0 by simp
  have a_lt: "pbs < length CT" unfolding lCT by (rule plt)
  have jj: "(length CT - pbs - 1) div 16384 = j" unfolding lCT j_def by (rule refl)
  have m16: "length CT mod 16 = 0" unfolding lCT total_def A0_def by simp
  have dd: "drop 16384 (drop pbs CT) = drop (pbs + 16384) CT" by (simp add: add.commute)
  have loop: "decrypt_loop env pn [] (drop pbs CT) (dec_after env ctx CT pbs) [] [] =
      Some (decrypt_last_chunk pn (drop T0 PT) (drop A0 (take T0 PT)) (drop A0 (take T0 PT)) [])"
    unfolding decrypt_loop_empty dd
    unfolding decrypt_loop_stream [OF pctx a_lt jj] plain b16 T0_def [symmetric]
    using m16 by simp
  from hdr loop show ?thesis
    unfolding inp_def PT_def [symmetric] ps_def [symmetric] tt A0_def [symmetric] by blast
qed

text \<open>
  When the last iteration holds the padding byte and the whole footer, \<open>decrypt_fd\<close>
  recovers the content and unpacks the footer.
\<close>

lemma container_decrypt:
  assumes ok: "env_ok env" and key: "key_size_ok c" and sl: "length salt = 12"
    and pl: "length pn < 2 ^ 16" and fl: "length ft = 48"
    and tail: "64 \<le> container_tail (length pn) (length content)"
    and uf: "unpack_footer pn ft = Inr fe'"
  shows "\<exists>dec rest.
           decrypt_header env c (container env c salt flg pn content ft) =
             Inr (uint flg, salt, pn, dec, rest) \<and>
           decrypt_loop env pn [] rest dec [] [] = Some (Inr (fe', content, content), [])"
proof -
  define PT where "PT = container_plain pn content ft"
  define ps where "ps = length pn"
  define A0 where "A0 = 16 * ((ps + 15) div 16)"
  define tl where "tl = container_tail ps (length content)"
  define T0 where "T0 = length PT - tl"
  define P1 where "P1 = pn @ pathname_padding ps"
  define p where "p = 16 - length content mod 16"
  have lPT: "length PT = A0 + 16 * Suc (length content div 16) + 48"
    unfolding PT_def A0_def ps_def length_container_plain fl by (rule refl)
  have lP1: "length P1 = A0"
    unfolding P1_def A0_def ps_def by (rule length_pathname_padded)
  have tle: "tl \<le> 16 * Suc (length content div 16) + 48"
    unfolding tl_def by (rule container_tail_le)
  have t64: "64 \<le> tl" using tail unfolding tl_def ps_def .
  have ppos: "0 < p" "p \<le> 16" unfolding p_def by simp_all
  have pt: "PT = P1 @ content @ replicate p (of_nat p) @ ft"
    unfolding PT_def container_plain_def P1_def ps_def pkcs_padding_def p_def by simp
  have last: "decrypt_last_chunk pn (drop T0 PT) (drop (length P1) (take T0 PT))
           (drop (length P1) (take T0 PT)) [] = (Inr (fe', content, content), [])"
  proof (rule decrypt_last_chunk_ok [OF pt fl _ ppos _ _ uf])
    show "replicate p (of_nat p) = replicate p (of_nat p)" by (rule refl)
    show "length P1 \<le> T0" unfolding lP1 T0_def lPT using tle by simp
    show "T0 + 64 \<le> length PT" unfolding T0_def lPT using tle t64 by simp
  qed
  from container_last_chunk [OF ok key sl pl fl, of flg content]
  show ?thesis
    unfolding PT_def [symmetric] ps_def [symmetric] tl_def [symmetric] T0_def [symmetric]
      A0_def [symmetric] lP1 [symmetric] last .
qed

text \<open>
  When the last iteration holds fewer than 36 bytes, the footer straddles the last two
  reads: \<open>plaintext[-48:]\<close> is the whole short plaintext, \<open>unpack\<close> gets fewer than 36
  bytes and raises \<open>struct.error\<close>.
\<close>

lemma unpack_footer_short: "length ft < 36 \<Longrightarrow> unpack_footer pn ft = Inl StructError"
  by (simp add: unpack_footer_def Let_def)

lemma container_straddle:
  assumes ok: "env_ok env" and key: "key_size_ok c" and sl: "length salt = 12"
    and pl: "length pn < 2 ^ 16" and fl: "length ft = 48"
    and tail: "container_tail (length pn) (length content) < 36"
  shows "decrypt_fd env c (container env c salt flg pn content ft) =
           Some (Inl StructError, [], [])"
proof -
  define PT where "PT = container_plain pn content ft"
  define tl where "tl = container_tail (length pn) (length content)"
  define X where "X = drop (16 * ((length pn + 15) div 16)) (take (length PT - tl) PT)"
  have "length (slice_last 48 (drop (length PT - tl) PT)) < 36"
    using tail unfolding tl_def [symmetric] by (simp add: slice_last_def)
  then have uf: "unpack_footer pn (slice_last 48 (drop (length PT - tl) PT)) = Inl StructError"
    by (rule unpack_footer_short)
  have last: "decrypt_last_chunk pn (drop (length PT - tl) PT) X X [] = (Inl StructError, [])"
    unfolding decrypt_last_chunk_def uf by simp
  from container_last_chunk [OF ok key sl pl fl, of flg content]
  obtain dec rest where
    hdr: "decrypt_header env c (container env c salt flg pn content ft) =
             Inr (uint flg, salt, pn, dec, rest)"
    and loop: "decrypt_loop env pn [] rest dec [] [] = Some (Inl StructError, [])"
    unfolding PT_def [symmetric] tl_def [symmetric] X_def [symmetric] last by blast
  show ?thesis
    unfolding decrypt_fd_def hdr sum.case prod.case loop option.case by (rule refl)
qed

subsection \<open>The round trip\<close>

lemma uint_flags_byte: "uint (of_int (flags AND 0xFF) :: byte) = flags AND 0xFF"
proof -
  have "take_bit 8 (flags AND 255) = flags AND 255"
    by (simp add: take_bit_eq_mask mask_eq_exp_minus_1 and.assoc)
  then show ?thesis by (simp add: uint_word_of_int_eq)
qed

lemma length_encrypt_salt:
  "env_ok env \<Longrightarrow> wf_entry fe \<Longrightarrow> length (encrypt_salt env fe) = 12"
  by (cases "fe_salt fe") (simp_all add: encrypt_salt_def wf_entry_def env_ok_def)

lemma container_tail_small:
  assumes "n + 64 \<le> 16384"
  shows "container_tail ps n = 16 * Suc (n div 16) + 48"
proof -
  define A0 where "A0 = 16 * ((ps + 15) div 16)"
  define pbs where "pbs = pathname_block_size ps"
  define total where "total = A0 + 16 * Suc (n div 16) + 48"
  have b16: "16 * (pbs div 16) = A0" unfolding pbs_def A0_def by (rule pathname_block_size_blocks)
  have ge: "A0 \<le> pbs" unfolding b16 [symmetric] by (rule blocks_le)
  have nn: "16 * (n div 16) \<le> n" by (rule blocks_le)
  have "total - pbs - 1 < 16384" unfolding total_def using ge nn assms by simp
  then have j: "(total - pbs - 1) div 16384 = 0" by simp
  have "container_tail ps n = total - 16 * ((pbs + 16384 * ((total - pbs - 1) div 16384)) div 16)"
    unfolding container_tail_def Let_def A0_def [symmetric] total_def [symmetric]
      pbs_def [symmetric] by (rule refl)
  also have "\<dots> = total - A0" unfolding j using b16 by simp
  also have "\<dots> = 16 * Suc (n div 16) + 48" unfolding total_def by simp
  finally show ?thesis .
qed

lemma container_tail_small_ok: "n + 64 \<le> 16384 \<Longrightarrow> 64 \<le> container_tail ps n"
  by (simp add: container_tail_small)

lemma roundtrip:
  assumes ok: "env_ok env" and key: "key_size_ok c" and wf: "wf_entry fe"
    and tail: "64 \<le> container_tail (length (fe_pathname fe)) (length (encrypt_data env flags content))"
  shows "decrypt_fd env c (concat (snd (encrypt_fd env c content (Some fe) flags))) =
           Some (Inr (decrypted_entry env flags content fe), [], [content])"
proof -
  define salt where "salt = encrypt_salt env fe"
  define data where "data = encrypt_data env flags content"
  define dg where "dg = md5_digest env data"
  define ft where "ft = footer_bytes dg fe @ replicate 12 0"
  define pn where "pn = fe_pathname fe"
  define flg where "flg = (of_int (flags AND 0xFF) :: byte)"
  define fe' where "fe' = FileEntry pn (fe_size fe) (of_int (py_int (fe_ctime fe)))
        (of_int (py_int (fe_mtime fe))) (fe_mode fe) (Some dg) False"
  from wf have ffo: "footer_fields_ok fe" and pl: "length pn < 2 ^ 16"
    by (simp_all add: wf_entry_def pn_def)
  have sl: "length salt = 12" unfolding salt_def by (rule length_encrypt_salt [OF ok wf])
  have ld: "length dg = 16" unfolding dg_def by (rule length_md5_digest)
  have lf: "length ft = 48" unfolding ft_def by (simp add: length_footer_bytes ld)
  have uf: "unpack_footer pn ft = Inr fe'"
    unfolding ft_def fe'_def by (rule unpack_footer_ok [OF ffo ld])
  have cont: "concat (snd (encrypt_fd env c content (Some fe) flags)) =
      container env c salt flg pn data ft"
    unfolding salt_def flg_def pn_def data_def ft_def dg_def
    by (rule encrypt_fd_container(2) [OF key wf])
  have tail': "64 \<le> container_tail (length pn) (length data)"
    using tail unfolding pn_def data_def .
  from container_decrypt [OF ok key sl pl lf tail' uf, of flg]
  obtain dec rest where
    hdr: "decrypt_header env c (container env c salt flg pn data ft) =
             Inr (uint flg, salt, pn, dec, rest)"
    and loop: "decrypt_loop env pn [] rest dec [] [] = Some (Inr (fe', data, data), [])"
    by blast
  have fd: "decrypt_fd env c (container env c salt flg pn data ft) =
      Some (decrypt_verify env (uint flg) salt fe' data data [])"
    unfolding decrypt_fd_def hdr sum.case prod.case loop option.case by (rule refl)
  have uf2: "uint flg = flags AND 0xFF" unfolding flg_def by (rule uint_flags_byte)
  have dec_data: "(if (flags AND 0xFF) AND COMPRESS \<noteq> 0
            then (case zlib_decompress env data of None \<Rightarrow> Inl ZlibError | Some b \<Rightarrow> Inr b)
            else Inr data) = Inr content"
    using ok by (simp add: data_def encrypt_data_def env_ok_def)
  have dgs: "fe_digest (fe'\<lparr>fe_salt := Some salt\<rparr>) = Some (take 16 (md5_digest env data))"
    using ld by (simp add: fe'_def FileEntry_def dg_def)
  have ver: "decrypt_verify env (uint flg) salt fe' data data [] =
      (Inr (fe'\<lparr>fe_salt := Some salt\<rparr>), [], [content])"
    unfolding decrypt_verify_def uf2 dec_data sum.case Let_def dgs fd_write_def
    by simp
  have ent: "fe'\<lparr>fe_salt := Some salt\<rparr> = decrypted_entry env flags content fe"
    unfolding fe'_def decrypted_entry_def pn_def dg_def data_def salt_def by (rule refl)
  show ?thesis unfolding cont fd ver ent by (rule refl)
qed

lemma container_digest_mismatch:
  assumes ok: "env_ok env" and key: "key_size_ok c" and sl: "length salt = 12"
    and pl: "length pn < 2 ^ 16" and fl: "length ft = 48"
    and tail: "64 \<le> container_tail (length pn) (length content)"
    and flg: "uint flg AND COMPRESS = 0"
    and dg: "take 16 ft \<noteq> md5_digest env content"
  shows "decrypt_fd env c (container env c salt flg pn content ft) =
           Some (Inl DigestMissMatch, [], [])"
proof -
  from unpack_footer_48 [OF fl, of pn] obtain fe' where
    uf: "unpack_footer pn ft = Inr fe'" and fd: "fe_digest fe' = Some (take 16 ft)"
    by blast
  from container_decrypt [OF ok key sl pl fl tail uf, of flg]
  obtain dec rest where
    hdr: "decrypt_header env c (container env c salt flg pn content ft) =
             Inr (uint flg, salt, pn, dec, rest)"
    and loop: "decrypt_loop env pn [] rest dec [] [] = Some (Inr (fe', content, content), [])"
    by blast
  have "decrypt_fd env c (container env c salt flg pn content ft) =
      Some (decrypt_verify env (uint flg) salt fe' content content [])"
    unfolding decrypt_fd_def hdr sum.case prod.case loop option.case by (rule refl)
  also have "decrypt_verify env (uint flg) salt fe' content content [] =
      (Inl DigestMissMatch, [], [])"
    using flg dg fd by (simp add: decrypt_verify_def length_md5_digest)
  finally show ?thesis .
qed

lemma be_nat_zeros: "be_nat (replicate n 0) = 0"
proof (induction n)
  case 0
  show ?case by (simp add: be_nat_def)
next
  case (Suc n)
  have "replicate (Suc n) (0::byte) = replicate n 0 @ [0]"
    by (simp add: replicate_append_same)
  then show ?case using Suc by (simp only: be_nat_snoc) simp
qed

lemma md5_toy_nonzero: "md5_digest toy_env [0x41, 0x42] \<noteq> replicate 16 0"
proof
  assume "md5_digest toy_env [0x41, 0x42] = replicate 16 0"
  then have "block_of (bytes_of (md5 toy_env [0x41, 0x42])) = block_of (replicate 16 0)"
    by (simp add: md5_digest_def)
  then have "md5 toy_env [0x41, 0x42] = block_of (replicate 16 0)"
    by (simp only: block_of_bytes_of)
  then show False
    by (simp add: toy_env_def block_of_def be_nat_zeros) (simp add: be_nat_def)
qed

lemma encrypt_data_plain: "encrypt_data env 0 content = content"
  by (simp add: encrypt_data_def)

lemma decrypted_entry_plain:
  "decrypted_entry env 0 content fe =
     (FileEntry (fe_pathname fe) (fe_size fe) (of_int (py_int (fe_ctime fe)))
        (of_int (py_int (fe_mtime fe))) (fe_mode fe) (Some (md5_digest env content)) False)
     \<lparr>fe_salt := Some (encrypt_salt env fe)\<rparr>"
  by (simp add: decrypted_entry_def encrypt_data_plain)

lemma encrypt_salt_toy: "encrypt_salt toy_env toy_entry = replicate 12 0xAB"
  by (simp add: encrypt_salt_def toy_entry_def FileEntry_def toy_env_def)

lemma toy_entry_fields:
  "fe_pathname toy_entry = [0x61, 0x2E, 0x74, 0x78, 0x74]" "fe_size toy_entry = 3"
  "fe_ctime toy_entry = 201 / 2" "fe_mtime toy_entry = 2009 / 10" "fe_mode toy_entry = - 5"
  by (simp_all add: toy_entry_def FileEntry_def)

text \<open>
  Claim C1, as the code has it. Let the entry have a pathname of fewer than \<open>2 ** 16\<close> encoded
  bytes, a size, a mode and whole-second times in the ranges of their footer fields, and a
  salt that is absent or has 12 bytes; let the password give an AES key; and let the last
  chunk that \<open>decrypt_fd\<close> reads hold the padding byte and the footer of the container
  (\<open>container_tail\<close>, which is so for every content shorter than 16320 bytes). Then
  \<open>encrypt_fd\<close> returns the entry with its salt and digest filled in, and \<open>decrypt_fd\<close> on the
  bytes it wrote consumes them all, writes exactly the content, in one write, and returns
  the pathname, size and mode of the entry, its ctime and mtime truncated to whole seconds,
  the digest of the content, the salt of the container, and no directory flag.
\<close>

theorem encrypt_decrypt_round_trip:
  assumes "env_ok env" and "key_size_ok c" and "wf_entry fe"
    and "64 \<le> container_tail (length (fe_pathname fe)) (length content)"
  shows "fst (encrypt_fd env c content (Some fe) 0) =
           Inr (fe\<lparr>fe_salt := Some (encrypt_salt env fe),
                   fe_digest := Some (md5_digest env content)\<rparr>) \<and>
         decrypt_fd env c (concat (snd (encrypt_fd env c content (Some fe) 0))) =
           Some (Inr ((FileEntry (fe_pathname fe) (fe_size fe) (of_int (py_int (fe_ctime fe)))
                         (of_int (py_int (fe_mtime fe))) (fe_mode fe)
                         (Some (md5_digest env content)) False)
                      \<lparr>fe_salt := Some (encrypt_salt env fe)\<rparr>),
                 [], [content])"
proof -
  have t: "64 \<le> container_tail (length (fe_pathname fe)) (length (encrypt_data env 0 content))"
    using assms(4) by (simp only: encrypt_data_plain)
  have a: "fst (encrypt_fd env c content (Some fe) 0) =
      Inr (fe\<lparr>fe_salt := Some (encrypt_salt env fe),
              fe_digest := Some (md5_digest env content)\<rparr>)"
    using encrypt_fd_container(1) [OF assms(2,3), of env content 0]
    by (simp only: encrypt_entry_def encrypt_data_plain)
  have b: "decrypt_fd env c (concat (snd (encrypt_fd env c content (Some fe) 0))) =
      Some (Inr (decrypted_entry env 0 content fe), [], [content])"
    by (rule roundtrip [OF assms(1,2,3) t])
  from a b show ?thesis by (simp only: decrypted_entry_plain simp_thms)
qed

theorem encrypt_decrypt_round_trip_witness:
  "fst (encrypt_fd toy_env toy_crypto [0x41, 0x42] (Some toy_entry) 0) =
     Inr (toy_entry\<lparr>fe_salt := Some (replicate 12 0xAB),
                    fe_digest := Some (md5_digest toy_env [0x41, 0x42])\<rparr>) \<and>
   decrypt_fd toy_env toy_crypto
     (concat (snd (encrypt_fd toy_env toy_crypto [0x41, 0x42] (Some toy_entry) 0))) =
     Some (Inr ((FileEntry [0x61, 0x2E, 0x74, 0x78, 0x74] 3 100 200 (- 5)
                   (Some (md5_digest toy_env [0x41, 0x42])) False)
                \<lparr>fe_salt := Some (replicate 12 0xAB)\<rparr>),
           [], [[0x41, 0x42]])"
proof -
  have t: "64 \<le> container_tail (length (fe_pathname toy_entry)) (length [0x41, 0x42 :: byte])"
    by (rule container_tail_small_ok) simp
  show ?thesis
    using encrypt_decrypt_round_trip [OF env_ok_toy key_size_ok_toy wf_entry_toy t]
    by (simp only: encrypt_salt_toy toy_entry_fields py_int_toy of_int_numeral)
qed

text \<open>
  Claim C1 as it is written fails: the footer stores \<open>int(ctime)\<close> and \<open>int(mtime)\<close>, so the
  entry with ctime 100.5 and mtime 200.9 comes back with ctime 100 and mtime 200.
\<close>

theorem encrypt_decrypt_round_trip_counterexample:
  "decrypt_fd toy_env toy_crypto
     (concat (snd (encrypt_fd toy_env toy_crypto [0x41] (Some toy_entry) 0))) =
     Some (Inr ((FileEntry [0x61, 0x2E, 0x74, 0x78, 0x74] 3 100 200 (- 5)
                   (Some (md5_digest toy_env [0x41])) False)
                \<lparr>fe_salt := Some (replicate 12 0xAB)\<rparr>),
           [], [[0x41]]) \<and>
   fe_ctime toy_entry = 201 / 2 \<and> fe_mtime toy_entry = 2009 / 10"
proof -
  have t: "64 \<le> container_tail (length (fe_pathname toy_entry))
      (length (encrypt_data toy_env 0 [0x41]))"
    by (rule container_tail_small_ok) (simp add: encrypt_data_plain)
  have "decrypt_fd toy_env toy_crypto
      (concat (snd (encrypt_fd toy_env toy_crypto [0x41] (Some toy_entry) 0))) =
      Some (Inr (decrypted_entry toy_env 0 [0x41] toy_entry), [], [[0x41]])"
    by (rule roundtrip [OF env_ok_toy key_size_ok_toy wf_entry_toy t])
  then show ?thesis
    by (simp only: decrypted_entry_plain encrypt_salt_toy toy_entry_fields py_int_toy
        of_int_numeral simp_thms)
qed

lemma cbc_cipher_empty: "cbc_cipher env ctx [] = []"
  by (simp add: cbc_cipher_def)

lemma pathname_padding_0: "pathname_padding 0 = []"
  by (simp add: pathname_padding_def)

lemma be_bytes_2_0: "be_bytes 2 0 = [0, 0]"
  by (simp add: numeral_2_eq_2)


text \<open>
  Claim C2, as the code has it. When the header has been read and the loop has recovered
  the plaintext, decompression (if the flag asks for it) succeeds, and the digest of the
  footer differs from the first \<open>block_size\<close> bytes of the digest recomputed over the
  recovered plaintext, \<open>decrypt_fd\<close> raises \<open>DigestMissMatch\<close> and nothing has been written to
  \<open>out_fd\<close>: the recovered content is held in the buffer \<open>str_io\<close>, and the only
  \<open>out_fd.write\<close> comes after the comparison.
\<close>

theorem decrypt_fd_digest_mismatch:
  assumes "decrypt_header env c in_fd = Inr (flags, salt, pathname, decryptor, in_fd2)"
    and "decrypt_loop env pathname [] in_fd2 decryptor [] [] =
           Some (Inr (file_entry, str_io, md5acc), in_fd3)"
    and "flags AND COMPRESS \<noteq> 0 \<Longrightarrow> zlib_decompress env str_io \<noteq> None"
    and "fe_digest file_entry \<noteq> Some (take block_size (md5_digest env md5acc))"
  shows "decrypt_fd env c in_fd = Some (Inl DigestMissMatch, in_fd3, [])"
proof -
  have "decrypt_fd env c in_fd =
      Some (decrypt_verify env flags salt file_entry str_io md5acc in_fd3)"
    unfolding decrypt_fd_def assms(1) sum.case prod.case assms(2) option.case by (rule refl)
  also have "decrypt_verify env flags salt file_entry str_io md5acc in_fd3 =
      (Inl DigestMissMatch, in_fd3, [])"
    using assms(3,4) by (auto simp add: decrypt_verify_def)
  finally show ?thesis .
qed

theorem decrypt_fd_digest_mismatch_witness:
  "decrypt_fd toy_env toy_crypto
     (container toy_env toy_crypto (replicate 12 0) 0 [] [0x41, 0x42] (replicate 48 0)) =
     Some (Inl DigestMissMatch, [], [])"
proof -
  let ?X = "container toy_env toy_crypto (replicate 12 0) 0 [] [0x41, 0x42] (replicate 48 0)"
  have sl: "length (replicate 12 (0::byte)) = 12" by simp
  have pl: "length ([]::bytes) < 2 ^ 16" by simp
  have fl: "length (replicate 48 (0::byte)) = 48" by simp
  have tail: "64 \<le> container_tail (length ([]::bytes)) (length [0x41, 0x42 :: byte])"
    by (rule container_tail_small_ok) simp
  from unpack_footer_48 [OF fl, of "[]"] obtain fe' where
    uf: "unpack_footer [] (replicate 48 0) = Inr fe'"
    and fd: "fe_digest fe' = Some (take 16 (replicate 48 0))"
    by blast
  from container_decrypt [OF env_ok_toy key_size_ok_toy sl pl fl tail uf, of 0]
  obtain dec rest where
    hdr: "decrypt_header toy_env toy_crypto ?X = Inr (uint (0::byte), replicate 12 0, [], dec, rest)"
    and loop: "decrypt_loop toy_env [] [] rest dec [] [] =
      Some (Inr (fe', [0x41, 0x42], [0x41, 0x42]), [])"
    by blast
  have z: "uint (0::byte) AND COMPRESS \<noteq> 0 \<Longrightarrow> zlib_decompress toy_env [0x41, 0x42] \<noteq> None"
    by simp
  have d: "fe_digest fe' \<noteq> Some (take block_size (md5_digest toy_env [0x41, 0x42]))"
    using md5_toy_nonzero fd by (simp add: length_md5_digest)
  show ?thesis by (rule decrypt_fd_digest_mismatch [OF hdr loop z d])
qed

text \<open>
  Claim C2 as it is written fails: for the container of the content \<open>AB\<close> with pathname
  \<open>b\<close> whose footer holds a digest of sixteen zero bytes, \<open>decrypt_fd\<close> raises
  \<open>DigestMissMatch\<close> with nothing written to \<open>out_fd\<close>, although the two bytes of content have
  been recovered.
\<close>

theorem decrypt_fd_digest_mismatch_counterexample:
  "decrypt_fd toy_env toy_crypto
     (container toy_env toy_crypto (replicate 12 1) 0 [0x62] [0x41, 0x42] (replicate 48 0)) =
     Some (Inl DigestMissMatch, [], [])"
proof -
  have sl: "length (replicate 12 (1::byte)) = 12" by simp
  have pl: "length [0x62 :: byte] < 2 ^ 16" by simp
  have fl: "length (replicate 48 (0::byte)) = 48" by simp
  have tail: "64 \<le> container_tail (length [0x62 :: byte]) (length [0x41, 0x42 :: byte])"
    by (rule container_tail_small_ok) simp
  have flg: "uint (0::byte) AND COMPRESS = 0" by simp
  have dg: "take 16 (replicate 48 (0::byte)) \<noteq> md5_digest toy_env [0x41, 0x42]"
    using md5_toy_nonzero by simp
  show ?thesis
    by (rule container_digest_mismatch [OF env_ok_toy key_size_ok_toy sl pl fl tail flg dg])
qed



text \<open>
  Claim C7, as the code has it. An empty pathname is legal, and it is stored as nothing:
  the pathname is padded only when its length is not a multiple of \<open>block_size\<close>, so the
  fourth write of \<open>encrypt_fd\<close>, the encrypted pathname, is empty, and the encrypted content
  follows the 16-byte header at once. \<open>decrypt_fd\<close> recovers the empty pathname (and the
  content), when the last chunk it reads holds the padding byte and the footer.
\<close>

theorem encrypt_fd_empty_pathname:
  assumes "env_ok env" and "key_size_ok c" and "wf_entry fe" and "fe_pathname fe = []"
    and "64 \<le> container_tail 0 (length content)"
  shows "snd (encrypt_fd env c content (Some fe) 0) ! 3 = [] \<and>
         concat (snd (encrypt_fd env c content (Some fe) 0)) =
           [of_nat VERSION, 0, 0, 0] @ encrypt_salt env fe @
           cbc_cipher env (initial_ctx env c (encrypt_salt env fe))
             ((content @ pkcs_padding (length content)) @
              footer_bytes (md5_digest env content) fe @ replicate 12 0) \<and>
         decrypt_fd env c (concat (snd (encrypt_fd env c content (Some fe) 0))) =
           Some (Inr (decrypted_entry env 0 content fe), [], [content]) \<and>
         fe_pathname (decrypted_entry env 0 content fe) = []"
proof -
  have a: "snd (encrypt_fd env c content (Some fe) 0) ! 3 = []"
    using encrypt_fd_container(3) [OF assms(2,3), of env content 0] assms(4)
    by (simp add: pathname_padding_0 cbc_cipher_empty)
  have b: "concat (snd (encrypt_fd env c content (Some fe) 0)) =
      [of_nat VERSION, 0, 0, 0] @ encrypt_salt env fe @
      cbc_cipher env (initial_ctx env c (encrypt_salt env fe))
        ((content @ pkcs_padding (length content)) @
         footer_bytes (md5_digest env content) fe @ replicate 12 0)"
    using encrypt_fd_container(2) [OF assms(2,3), of env content 0] assms(4)
    by (simp add: encrypt_data_plain container_def container_plain_def pathname_padding_0
        be_bytes_2_0)
  have t: "64 \<le> container_tail (length (fe_pathname fe)) (length (encrypt_data env 0 content))"
    using assms(4,5) by (simp add: encrypt_data_plain)
  have d: "decrypt_fd env c (concat (snd (encrypt_fd env c content (Some fe) 0))) =
      Some (Inr (decrypted_entry env 0 content fe), [], [content])"
    by (rule roundtrip [OF assms(1,2,3) t])
  have e: "fe_pathname (decrypted_entry env 0 content fe) = []"
    using assms(4) by (simp add: decrypted_entry_def FileEntry_def)
  from a b d e show ?thesis by simp
qed

theorem encrypt_fd_empty_pathname_witness:
  "snd (encrypt_fd toy_env toy_crypto [0x41] (Some (toy_entry\<lparr>fe_pathname := []\<rparr>)) 0) ! 3 = [] \<and>
   decrypt_fd toy_env toy_crypto
     (concat (snd (encrypt_fd toy_env toy_crypto [0x41]
        (Some (toy_entry\<lparr>fe_pathname := []\<rparr>)) 0))) =
     Some (Inr (decrypted_entry toy_env 0 [0x41] (toy_entry\<lparr>fe_pathname := []\<rparr>)), [], [[0x41]]) \<and>
   fe_pathname (decrypted_entry toy_env 0 [0x41] (toy_entry\<lparr>fe_pathname := []\<rparr>)) = []"
proof -
  have wf: "wf_entry (toy_entry\<lparr>fe_pathname := []\<rparr>)"
    using wf_entry_toy by (simp add: wf_entry_def footer_fields_ok_def)
  have p: "fe_pathname (toy_entry\<lparr>fe_pathname := []\<rparr>) = []" by simp
  have t: "64 \<le> container_tail 0 (length [0x41 :: byte])"
    by (rule container_tail_small_ok) simp
  note th = encrypt_fd_empty_pathname [OF env_ok_toy key_size_ok_toy wf p t]
  from th [THEN conjunct1] th [THEN conjunct2, THEN conjunct2]
  show ?thesis by (rule conjI)
qed

text \<open>
  Claim C7 as it is written fails: for an entry with an empty pathname the encrypted
  pathname that \<open>encrypt_fd\<close> writes has no bytes, not the \<open>block_size\<close> bytes of a padding
  block.
\<close>

theorem encrypt_fd_empty_pathname_counterexample:
  "snd (encrypt_fd toy_env toy_crypto [] (Some (toy_entry\<lparr>fe_pathname := []\<rparr>)) 0) ! 3 = [] \<and>
   length (snd (encrypt_fd toy_env toy_crypto [] (Some (toy_entry\<lparr>fe_pathname := []\<rparr>)) 0) ! 3)
     \<noteq> block_size"
proof -
  have wf: "wf_entry (toy_entry\<lparr>fe_pathname := []\<rparr>)"
    using wf_entry_toy by (simp add: wf_entry_def footer_fields_ok_def)
  have "snd (encrypt_fd toy_env toy_crypto [] (Some (toy_entry\<lparr>fe_pathname := []\<rparr>)) 0) ! 3 = []"
    using encrypt_fd_container(3) [OF key_size_ok_toy wf, of toy_env "[]" 0]
    by (simp add: pathname_padding_0 cbc_cipher_empty)
  then show ?thesis by simp
qed

text \<open>
  Outside the hypothesis on \<open>container_tail\<close> the round trip can fail. When the last
  iteration of the loop of \<open>decrypt_fd\<close> holds fewer than 36 bytes, \<open>decrypt_fd\<close> raises
  \<open>struct.error\<close> on the container that \<open>encrypt_fd\<close> wrote; so it is for an empty pathname
  and a content of 16336 bytes, where the last read starts 16 bytes before the end.
\<close>

lemma round_trip_chunk_boundary:
  assumes ok: "env_ok env" and key: "key_size_ok c" and wf: "wf_entry fe"
    and tail: "container_tail (length (fe_pathname fe)) (length content) < 36"
  shows "decrypt_fd env c (concat (snd (encrypt_fd env c content (Some fe) 0))) =
           Some (Inl StructError, [], [])"
proof -
  have sl: "length (encrypt_salt env fe) = 12" by (rule length_encrypt_salt [OF ok wf])
  from wf have pl: "length (fe_pathname fe) < 2 ^ 16" by (simp add: wf_entry_def)
  have fl: "length (footer_bytes (md5_digest env content) fe @ replicate 12 0) = 48"
    by (simp add: length_footer_bytes length_md5_digest)
  have cont: "concat (snd (encrypt_fd env c content (Some fe) 0)) =
      container env c (encrypt_salt env fe) (of_int (0 AND 0xFF)) (fe_pathname fe) content
        (footer_bytes (md5_digest env content) fe @ replicate 12 0)"
    using encrypt_fd_container(2) [OF key wf, of env content 0]
    by (simp only: encrypt_data_plain)
  show ?thesis unfolding cont by (rule container_straddle [OF ok key sl pl fl tail])
qed

lemma container_tail_16336: "container_tail 0 16336 = 16"
  by (simp add: container_tail_def pathname_block_size_eq)

lemma round_trip_chunk_boundary_toy:
  "decrypt_fd toy_env toy_crypto
     (concat (snd (encrypt_fd toy_env toy_crypto (replicate 16336 0x41)
        (Some (toy_entry\<lparr>fe_pathname := []\<rparr>)) 0))) =
     Some (Inl StructError, [], [])"
proof -
  have wf: "wf_entry (toy_entry\<lparr>fe_pathname := []\<rparr>)"
    using wf_entry_toy by (simp add: wf_entry_def footer_fields_ok_def)
  have t: "container_tail (length (fe_pathname (toy_entry\<lparr>fe_pathname := []\<rparr>)))
      (length (replicate 16336 (0x41::byte))) < 36"
    by (simp add: container_tail_16336)
  show ?thesis by (rule round_trip_chunk_boundary [OF env_ok_toy key_size_ok_toy wf t])
qed

end
